theory Spec2Isabelle
  imports Main "HOL-Library.Word" "HOL-Library.Monad_Syntax"
begin

section \<open>The event digester (event-digest/main.go)\<close>

text \<open>
  A shallow embedding of \<^verbatim>\<open>src/event-digest/main.go\<close>. Go strings and byte slices are
  \<open>string\<close> (lists of 8-bit characters), Go's \<^verbatim>\<open>int\<close> is a 64-bit word, a
  \<^verbatim>\<open>(value, error)\<close> return is a pair whose second component is \<open>error option\<close>
  (\<open>None\<close> is \<^verbatim>\<open>nil\<close>), and a \<^verbatim>\<open>panic\<close> is the constructor \<open>Panic\<close> of
  \<open>outcome\<close>. Output to standard output (\<^verbatim>\<open>fmt.Printf\<close>) is not part of the model.
\<close>

subsection \<open>Errors and outcomes\<close>

datatype error =
    EOF
  | ErrUnexpectedEOF
  | ErrExist
  | ErrNotExist
  | ErrPermission
  | ErrGzipHeader
  | ErrReadFailed
  | SyntaxError
  | UnmarshalTypeError
  | ErrTimeParse
  | ErrTimeYearRange
  | ErrTimeZoneRange
  | ErrAtoiSyntax
  | ErrAtoiRange
  | IndexOutOfRange
  | NilDereference

datatype 'a outcome = Return 'a | Panic error

type_synonym go_int = "64 word"

abbreviation nl :: char where
  "nl \<equiv> CHR 0x0A"

subsection \<open>Readers and the line counter\<close>

text \<open>
  An \<^verbatim>\<open>io.Reader\<close> is the list of what its successive \<^verbatim>\<open>Read\<close> calls return: the bytes
  put into the buffer and the error. A reader whose list is used up returns
  \<^verbatim>\<open>(0, io.EOF)\<close>. \<open>stream\<close> is the content such a reader delivers up to its end, with
  the error that cut it short.
\<close>

type_synonym read_result = "string \<times> error option"
type_synonym reader = "read_result list"

fun stream :: "reader \<Rightarrow> string \<times> error option" where
  "stream [] = ([], None)"
| "stream ((buf, e) # r) =
     (if e = Some EOF then (buf, None)
      else if e \<noteq> None then ([], e)
      else (buf @ fst (stream r), snd (stream r)))"

text \<open>\<^verbatim>\<open>bytes.Count(buf[:c], lineSep)\<close> for the one-byte separator of the source.\<close>

definition bytes_Count :: "string \<Rightarrow> char \<Rightarrow> nat" where
  "bytes_Count buf sep = length (filter (\<lambda>c. c = sep) buf)"

text \<open>
  The loop of \<^verbatim>\<open>lineCounter\<close> (lines 129-140): an error other than \<^verbatim>\<open>io.EOF\<close> returns
  at once with the count so far, the newlines of the buffer are added, and \<^verbatim>\<open>io.EOF\<close>
  ends the loop.
\<close>

fun lineCounter_loop :: "reader \<Rightarrow> go_int \<Rightarrow> go_int \<times> error option" where
  "lineCounter_loop [] count = (count, None)"
| "lineCounter_loop ((buf, e) # r) count =
     (if e \<noteq> None \<and> e \<noteq> Some EOF then (count, e)
      else if e = Some EOF then (count + of_nat (bytes_Count buf nl), None)
      else lineCounter_loop r (count + of_nat (bytes_Count buf nl)))"

definition lineCounter :: "reader \<Rightarrow> go_int \<times> error option" where
  "lineCounter r = lineCounter_loop r 0"

text \<open>
  A stream of lines: every line followed by a newline, or every line but the last one.
\<close>

definition terminated_lines :: "string list \<Rightarrow> string" where
  "terminated_lines ls = concat (map (\<lambda>l. l @ [nl]) ls)"

definition unterminated_lines :: "string list \<Rightarrow> string" where
  "unterminated_lines ls = terminated_lines (butlast ls) @ last ls"

subsection \<open>The username set\<close>

text \<open>
  \<^verbatim>\<open>UsernameSet\<close> is generated code (\<^verbatim>\<open>+gen set\<close>, line 41) that is not among the
  sources. Its three operations are modelled from the specification's section 4.3.
\<close>

type_synonym Username = string
type_synonym UsernameSet = "Username set"

text \<open>Modelled from the spec: the generated method \<^verbatim>\<open>UsernameSet.Add\<close> (idempotent add).\<close>

definition Add :: "UsernameSet \<Rightarrow> Username \<Rightarrow> UsernameSet" where
  "Add users u = insert u users"

text \<open>Modelled from the spec: the generated method \<^verbatim>\<open>UsernameSet.Clone\<close> (an independent
  copy of the current membership).\<close>

definition Clone :: "UsernameSet \<Rightarrow> UsernameSet" where
  "Clone users = users"

text \<open>Modelled from the spec: the generated method \<^verbatim>\<open>UsernameSet.Difference\<close> (the members
  present in the receiver but absent from the argument).\<close>

definition Difference :: "UsernameSet \<Rightarrow> UsernameSet \<Rightarrow> UsernameSet" where
  "Difference users other = Set.filter (\<lambda>u. u \<notin> other) users"

subsection \<open>The file system\<close>

text \<open>
  Files are byte strings under their paths. \<open>denied\<close> holds the paths the process may
  neither open nor create. An exclusive creation checks for existence first.
\<close>

record filesys =
  files :: "string \<rightharpoonup> string"
  denied :: "string set"

text \<open>\<^verbatim>\<open>os.OpenFile(p, O_EXCL|O_CREATE|O_RDWR, 0664)\<close>: the file system with the new, empty
  file.\<close>

definition os_OpenFile_excl :: "filesys \<Rightarrow> string \<Rightarrow> error + filesys" where
  "os_OpenFile_excl fs p =
     (if files fs p \<noteq> None then Inl ErrExist
      else if p \<in> denied fs then Inl ErrPermission
      else Inr (fs\<lparr>files := (files fs)(p \<mapsto> [])\<rparr>))"

text \<open>\<^verbatim>\<open>os.Open(p)\<close> followed by reading the file: its content.\<close>

definition os_Open :: "filesys \<Rightarrow> string \<Rightarrow> error + string" where
  "os_Open fs p =
     (case files fs p of
        None \<Rightarrow> Inl ErrNotExist
      | Some content \<Rightarrow> if p \<in> denied fs then Inl ErrPermission else Inr content)"



text \<open>A write at the end of an open file.\<close>

definition write_append :: "filesys \<Rightarrow> string \<Rightarrow> string \<Rightarrow> filesys" where
  "write_append fs p bytes =
     fs\<lparr>files := (files fs)(p \<mapsto> (case files fs p of None \<Rightarrow> bytes | Some old \<Rightarrow> old @ bytes))\<rparr>"

subsection \<open>Paths\<close>

text \<open>
  \<^verbatim>\<open>path/filepath\<close> in its Unix flavour (separator \<^verbatim>\<open>/\<close>, no volume names).
  \<open>strings_Split\<close> is \<^verbatim>\<open>strings.Split\<close> for a one-byte separator: one more segment than
  there are separators.
\<close>

fun strings_Split :: "string \<Rightarrow> char \<Rightarrow> string list" where
  "strings_Split [] sep = [[]]"
| "strings_Split (c # cs) sep =
     (if c = sep then [] # strings_Split cs sep
      else (case strings_Split cs sep of
              [] \<Rightarrow> [[c]]
            | seg # segs \<Rightarrow> (c # seg) # segs))"

text \<open>
  \<^verbatim>\<open>filepath.Clean\<close>, element by element: the output buffer is kept as the reversed list
  of the elements written so far (\<^verbatim>\<open>..\<close> elements that could not be resolved included).
  An empty element and \<^verbatim>\<open>.\<close> are dropped; \<^verbatim>\<open>..\<close> removes the last real element, is
  dropped at the root, and is kept in a relative path with nothing left to remove.
\<close>

fun clean_step :: "bool \<Rightarrow> string \<Rightarrow> string list \<Rightarrow> string list" where
  "clean_step rooted el out =
     (if el = [] \<or> el = ''.'' then out
      else if el = ''..'' then
        (case out of
           [] \<Rightarrow> if rooted then [] else [''..'']
         | prev # rest \<Rightarrow> if prev = ''..'' then ''..'' # out else rest)
      else el # out)"

fun join_sep :: "string list \<Rightarrow> string" where
  "join_sep [] = []"
| "join_sep [el] = el"
| "join_sep (el # els) = el @ ''/'' @ join_sep els"

definition filepath_Clean :: "string \<Rightarrow> string" where
  "filepath_Clean path =
     (if path = [] then ''.''
      else let rooted = (hd path = CHR ''/'');
               out = rev (fold (clean_step rooted) (strings_Split path (CHR ''/'')) [])
           in if rooted then ''/'' @ join_sep out
              else if out = [] then ''.'' else join_sep out)"

text \<open>\<^verbatim>\<open>filepath.Join(a, b)\<close>: empty elements are ignored, the rest is joined by the
  separator and cleaned; all elements empty gives the empty string.\<close>

definition filepath_Join :: "string \<Rightarrow> string \<Rightarrow> string" where
  "filepath_Join a b =
     (if a \<noteq> [] then filepath_Clean (a @ ''/'' @ b)
      else if b \<noteq> [] then filepath_Clean b
      else [])"

text \<open>\<^verbatim>\<open>filepath.Base\<close>: trailing separators are removed and the last element is
  returned; the empty path gives \<^verbatim>\<open>.\<close> and a path of separators only gives \<^verbatim>\<open>/\<close>.\<close>

definition strip_trailing :: "string \<Rightarrow> string" where
  "strip_trailing path = rev (dropWhile (\<lambda>c. c = CHR ''/'') (rev path))"

definition filepath_Base :: "string \<Rightarrow> string" where
  "filepath_Base path =
     (if path = [] then ''.''
      else let p = rev (takeWhile (\<lambda>c. c \<noteq> CHR ''/'') (rev (strip_trailing path)))
           in if p = [] then ''/'' else p)"

text \<open>\<^verbatim>\<open>makePath\<close> (lines 162-166); \<open>events_path\<close> is the value of the environment
  variable \<^verbatim>\<open>GHC_EVENTS_PATH\<close> (empty when unset).\<close>

definition makePath :: "string \<Rightarrow> string \<Rightarrow> string" where
  "makePath events_path basename = filepath_Join events_path basename"

subsection \<open>The known users\<close>

text \<open>\<^verbatim>\<open>readKnownUsers\<close> (lines 202-214): every segment between newlines is added as it
  stands; a file that cannot be read gives the empty set.\<close>

definition readKnownUsers :: "string \<Rightarrow> filesys \<Rightarrow> UsernameSet" where
  "readKnownUsers events_path fs =
     (case os_Open fs (makePath events_path ''users.txt'') of
        Inr usersBuf \<Rightarrow> fold (\<lambda>u users. Add users u) (strings_Split usersBuf nl) {}
      | Inl err \<Rightarrow> {})"

subsection \<open>JSON texts\<close>

text \<open>
  \<^verbatim>\<open>encoding/json\<close> as the program uses it. A JSON text is scanned into a value; string
  and number values keep their literal text (a string without its quotes, escapes still
  in place), as the decoder hands it to the target. A scan ends with the value and the
  rest of the input, or finds the input cut off inside the value (\<open>Truncated\<close>), or
  finds a byte that cannot continue it (\<open>Malformed\<close>). \<open>OutOfFuel\<close> is the end of the
  recursion bound of the model; \<open>json_scan\<close> never ends so (\<open>json_scan_fuel\<close> below). The
  limit that the decoder puts on the nesting of arrays and objects (10000 levels) is not
  part of the model.
\<close>

datatype json =
    JNull | JBool bool | JNumber string | JString string
  | JArray "json list" | JObject "(string \<times> json) list"

datatype 'a scan = Parsed 'a string | Truncated | Malformed | OutOfFuel

fun map_scan :: "('a \<Rightarrow> 'b) \<Rightarrow> 'a scan \<Rightarrow> 'b scan" where
  "map_scan f (Parsed x rest) = Parsed (f x) rest"
| "map_scan f Truncated = Truncated"
| "map_scan f Malformed = Malformed"
| "map_scan f OutOfFuel = OutOfFuel"

definition is_space :: "char \<Rightarrow> bool" where
  "is_space c = (c = CHR 0x20 \<or> c = CHR 0x09 \<or> c = CHR 0x0D \<or> c = CHR 0x0A)"

definition skip_space :: "string \<Rightarrow> string" where
  "skip_space s = dropWhile is_space s"

definition is_digit :: "char \<Rightarrow> bool" where
  "is_digit c = (48 \<le> (of_char c :: nat) \<and> (of_char c :: nat) \<le> 57)"

definition is_hex :: "char \<Rightarrow> bool" where
  "is_hex c = (is_digit c
     \<or> (97 \<le> (of_char c :: nat) \<and> (of_char c :: nat) \<le> 102)
     \<or> (65 \<le> (of_char c :: nat) \<and> (of_char c :: nat) \<le> 70))"

definition is_simple_escape :: "char \<Rightarrow> bool" where
  "is_simple_escape c = (c \<in> set [CHR 0x22, CHR 0x5C, CHR ''/'', CHR ''b'', CHR ''f'', CHR ''n'', CHR ''r'', CHR ''t''])"

text \<open>A string literal after its opening quote, up to the closing quote.\<close>

fun scan_string :: "string \<Rightarrow> string scan" where
  "scan_string [] = Truncated"
| "scan_string (c # cs) =
     (if c = CHR 0x22 then Parsed [] cs
      else if c = CHR 0x5C then
        (case cs of
           [] \<Rightarrow> Truncated
         | e # es \<Rightarrow>
             if is_simple_escape e then map_scan (\<lambda>raw. c # e # raw) (scan_string es)
             else if e = CHR ''u'' then
               (case es of
                  h1 # h2 # h3 # h4 # rest \<Rightarrow>
                    if is_hex h1 \<and> is_hex h2 \<and> is_hex h3 \<and> is_hex h4
                    then map_scan (\<lambda>raw. c # e # h1 # h2 # h3 # h4 # raw) (scan_string rest)
                    else Malformed
                | _ \<Rightarrow> if list_all is_hex es then Truncated else Malformed)
             else Malformed)
      else if (of_char c :: nat) < 32 then Malformed
      else map_scan (\<lambda>raw. c # raw) (scan_string cs))"

text \<open>A number literal: sign, integer part, fraction, exponent.\<close>

definition scan_exp :: "string \<Rightarrow> string \<Rightarrow> string scan" where
  "scan_exp acc s =
     (case s of
        [] \<Rightarrow> Parsed acc []
      | c # cs \<Rightarrow>
          if c = CHR ''e'' \<or> c = CHR ''E'' then
            (let sg = (case cs of [] \<Rightarrow> [] | g # _ \<Rightarrow> if g = CHR ''+'' \<or> g = CHR ''-'' then [g] else []);
                 ds = drop (length sg) cs
             in case ds of
                  [] \<Rightarrow> Truncated
                | d # _ \<Rightarrow>
                    if is_digit d
                    then Parsed (acc @ [c] @ sg @ takeWhile is_digit ds) (dropWhile is_digit ds)
                    else Malformed)
          else Parsed acc s)"

definition scan_frac :: "string \<Rightarrow> string \<Rightarrow> string scan" where
  "scan_frac acc s =
     (case s of
        [] \<Rightarrow> Parsed acc []
      | c # cs \<Rightarrow>
          if c = CHR ''.'' then
            (case cs of
               [] \<Rightarrow> Truncated
             | d # _ \<Rightarrow>
                 if is_digit d
                 then scan_exp (acc @ [c] @ takeWhile is_digit cs) (dropWhile is_digit cs)
                 else Malformed)
          else scan_exp acc s)"

definition scan_number :: "string \<Rightarrow> string scan" where
  "scan_number s =
     (let sg = (case s of [] \<Rightarrow> [] | g # _ \<Rightarrow> if g = CHR ''-'' then [g] else []);
          ds = drop (length sg) s
      in case ds of
           [] \<Rightarrow> Truncated
         | d # rest \<Rightarrow>
             if \<not> is_digit d then Malformed
             else if d = CHR ''0'' then scan_frac (sg @ [d]) rest
             else scan_frac (sg @ d # takeWhile is_digit rest) (dropWhile is_digit rest))"

fun scan_literal :: "string \<Rightarrow> string \<Rightarrow> unit scan" where
  "scan_literal [] s = Parsed () s"
| "scan_literal (l # ls) [] = Truncated"
| "scan_literal (l # ls) (c # cs) = (if c = l then scan_literal ls cs else Malformed)"

text \<open>
  Values, array elements after \<^verbatim>\<open>[\<close> and object members after \<^verbatim>\<open>{\<close>. The first argument
  bounds the number of nested calls; \<open>json_scan\<close> starts with more than an input of that
  length can use.
\<close>

fun parse_value :: "nat \<Rightarrow> string \<Rightarrow> json scan"
  and parse_elements :: "nat \<Rightarrow> json list \<Rightarrow> string \<Rightarrow> json scan"
  and parse_members :: "nat \<Rightarrow> (string \<times> json) list \<Rightarrow> string \<Rightarrow> json scan" where
  "parse_value 0 s = OutOfFuel"
| "parse_value (Suc n) s =
     (case skip_space s of
        [] \<Rightarrow> Truncated
      | c # cs \<Rightarrow>
          if c = CHR ''{'' then
            (case skip_space cs of
               [] \<Rightarrow> Truncated
             | d # ds \<Rightarrow> if d = CHR ''}'' then Parsed (JObject []) ds else parse_members n [] (d # ds))
          else if c = CHR ''['' then
            (case skip_space cs of
               [] \<Rightarrow> Truncated
             | d # ds \<Rightarrow> if d = CHR '']'' then Parsed (JArray []) ds else parse_elements n [] (d # ds))
          else if c = CHR 0x22 then map_scan JString (scan_string cs)
          else if c = CHR ''-'' \<or> is_digit c then map_scan JNumber (scan_number (c # cs))
          else if c = CHR ''t'' then map_scan (\<lambda>_. JBool True) (scan_literal ''rue'' cs)
          else if c = CHR ''f'' then map_scan (\<lambda>_. JBool False) (scan_literal ''alse'' cs)
          else if c = CHR ''n'' then map_scan (\<lambda>_. JNull) (scan_literal ''ull'' cs)
          else Malformed)"
| "parse_elements 0 acc s = OutOfFuel"
| "parse_elements (Suc n) acc s =
     (case parse_value n s of
        Parsed v rest \<Rightarrow>
          (case skip_space rest of
             [] \<Rightarrow> Truncated
           | c # cs \<Rightarrow>
               if c = CHR '','' then parse_elements n (acc @ [v]) cs
               else if c = CHR '']'' then Parsed (JArray (acc @ [v])) cs
               else Malformed)
      | Truncated \<Rightarrow> Truncated
      | Malformed \<Rightarrow> Malformed
      | OutOfFuel \<Rightarrow> OutOfFuel)"
| "parse_members 0 acc s = OutOfFuel"
| "parse_members (Suc n) acc s =
     (case skip_space s of
        [] \<Rightarrow> Truncated
      | q # cs \<Rightarrow>
          if q \<noteq> CHR 0x22 then Malformed
          else
            (case scan_string cs of
               Parsed key rest \<Rightarrow>
                 (case skip_space rest of
                    [] \<Rightarrow> Truncated
                  | colon # cs2 \<Rightarrow>
                      if colon \<noteq> CHR '':'' then Malformed
                      else
                        (case parse_value n cs2 of
                           Parsed v rest2 \<Rightarrow>
                             (case skip_space rest2 of
                                [] \<Rightarrow> Truncated
                              | c # cs3 \<Rightarrow>
                                  if c = CHR '','' then parse_members n (acc @ [(key, v)]) cs3
                                  else if c = CHR ''}'' then Parsed (JObject (acc @ [(key, v)])) cs3
                                  else Malformed)
                         | Truncated \<Rightarrow> Truncated
                         | Malformed \<Rightarrow> Malformed
                         | OutOfFuel \<Rightarrow> OutOfFuel))
             | Truncated \<Rightarrow> Truncated
             | Malformed \<Rightarrow> Malformed
             | OutOfFuel \<Rightarrow> OutOfFuel))"

definition json_scan :: "string \<Rightarrow> json scan" where
  "json_scan s = parse_value (2 * length s + 2) s"



text \<open>A scan that succeeds leaves less input than it was given.\<close>

lemma length_skip_space: "length (skip_space s) \<le> length s"
  by (simp add: skip_space_def length_dropWhile_le)

lemma skip_space_Cons_length: "skip_space s = c # cs \<Longrightarrow> length cs < length s"
  using length_skip_space [of s] by simp

lemma map_scan_Parsed:
  "map_scan f r = Parsed y rest \<longleftrightarrow> (\<exists>x. r = Parsed x rest \<and> y = f x)"
  by (cases r) auto

lemma scan_string_length: "scan_string s = Parsed raw rest \<Longrightarrow> length rest < length s"
proof (induction s arbitrary: raw rule: scan_string.induct)
  case 1
  then show ?case by simp
next
  case (2 c cs)
  then show ?case
    by (fastforce simp: map_scan_Parsed split: if_splits list.splits)
qed

lemma le_dropWhile: "n \<le> length (dropWhile P xs) \<Longrightarrow> n \<le> length xs"
  using length_dropWhile_le [of P xs] by simp

lemma scan_exp_length: "scan_exp acc s = Parsed raw rest \<Longrightarrow> length rest \<le> length s"
  by (auto simp: scan_exp_def Let_def split: list.splits if_splits
      intro: order_trans [OF length_dropWhile_le])

lemma scan_frac_length: "scan_frac acc s = Parsed raw rest \<Longrightarrow> length rest \<le> length s"
  by (auto simp: scan_frac_def split: list.splits if_splits dest!: scan_exp_length le_dropWhile)

lemma scan_number_length: "scan_number s = Parsed raw rest \<Longrightarrow> length rest < length s"
  by (auto simp: scan_number_def Let_def split: list.splits if_splits
      dest!: scan_frac_length le_dropWhile)

lemma scan_literal_length: "scan_literal lit s = Parsed u rest \<Longrightarrow> length rest \<le> length s"
  by (induction lit s rule: scan_literal.induct) (auto split: if_splits)

lemma parse_length:
  "(parse_value n s = Parsed v rest \<longrightarrow> length rest < length s)
   \<and> (parse_elements n els s = Parsed v rest \<longrightarrow> length rest < length s)
   \<and> (parse_members n ms s = Parsed v rest \<longrightarrow> length rest < length s)"
proof (induction n arbitrary: s v rest els ms)
  case 0
  then show ?case by simp
next
  case (Suc n)
  have pv: "\<And>s v rest. parse_value n s = Parsed v rest \<Longrightarrow> length rest < length s"
    and pe: "\<And>s v rest els. parse_elements n els s = Parsed v rest \<Longrightarrow> length rest < length s"
    and pm: "\<And>s v rest ms. parse_members n ms s = Parsed v rest \<Longrightarrow> length rest < length s"
    using Suc by blast+
  have 1: "length rest < length s" if h: "parse_value (Suc n) s = Parsed v rest"
  proof (cases "skip_space s")
    case Nil
    with h show ?thesis by simp
  next
    case (Cons c cs)
    have cs: "length cs < length s" using Cons by (rule skip_space_Cons_length)
    have sub: "\<And>d ds. skip_space cs = d # ds \<Longrightarrow> length (d # ds) < length s"
      using length_skip_space [of cs] cs by simp
    show ?thesis
      using h Cons cs sub
      by (auto simp: map_scan_Parsed split: if_splits list.splits
          dest!: pm pe scan_string_length scan_number_length scan_literal_length)
  qed
  have 2: "length rest < length s" if h: "parse_elements (Suc n) els s = Parsed v rest"
  proof -
    from h obtain v1 r1 where p1: "parse_value n s = Parsed v1 r1"
      by (auto split: scan.splits)
    have l1: "length r1 < length s" using p1 by (rule pv)
    from h p1 obtain c cs where sk: "skip_space r1 = c # cs"
      by (auto split: list.splits)
    have l2: "length cs < length r1" using sk by (rule skip_space_Cons_length)
    from h p1 sk show ?thesis using l1 l2
      by (auto split: if_splits dest!: pe)
  qed
  have 3: "length rest < length s" if h: "parse_members (Suc n) ms s = Parsed v rest"
  proof -
    from h obtain q cs where sk: "skip_space s = q # cs"
      by (auto split: list.splits)
    from h sk obtain key r1 where ss: "scan_string cs = Parsed key r1"
      by (auto split: if_splits scan.splits)
    from h sk ss obtain colon cs2 where sk2: "skip_space r1 = colon # cs2"
      by (auto split: if_splits list.splits)
    from h sk ss sk2 obtain v1 r2 where pv1: "parse_value n cs2 = Parsed v1 r2"
      by (auto split: if_splits scan.splits)
    from h sk ss sk2 pv1 obtain c cs3 where sk3: "skip_space r2 = c # cs3"
      by (auto split: if_splits list.splits)
    have "length cs < length s" using sk by (rule skip_space_Cons_length)
    moreover have "length r1 < length cs" using ss by (rule scan_string_length)
    moreover have "length cs2 < length r1" using sk2 by (rule skip_space_Cons_length)
    moreover have "length r2 < length cs2" using pv1 by (rule pv)
    moreover have "length cs3 < length r2" using sk3 by (rule skip_space_Cons_length)
    ultimately show ?thesis
      using h sk ss sk2 pv1 sk3 by (auto split: if_splits dest!: pm)
  qed
  show ?case using 1 2 3 by blast
qed


lemma json_scan_length: "json_scan s = Parsed v rest \<Longrightarrow> length rest < length s"
  using parse_length [of "2 * length s + 2" s v rest] by (simp add: json_scan_def)

text \<open>The recursion bound of \<open>json_scan\<close> is never reached.\<close>

lemma map_scan_OutOfFuel: "map_scan f r = OutOfFuel \<longleftrightarrow> r = OutOfFuel"
  by (cases r) auto

lemma scan_string_fuel: "scan_string s \<noteq> OutOfFuel"
  by (induction s rule: scan_string.induct)
    (auto simp: map_scan_OutOfFuel split: list.splits if_splits)

lemma scan_literal_fuel: "scan_literal lit s \<noteq> OutOfFuel"
  by (induction lit s rule: scan_literal.induct) auto

lemma scan_exp_fuel: "scan_exp acc s \<noteq> OutOfFuel"
  by (simp add: scan_exp_def Let_def split: list.splits)

lemma scan_frac_fuel: "scan_frac acc s \<noteq> OutOfFuel"
  by (simp add: scan_frac_def scan_exp_fuel split: list.splits)

lemma scan_number_fuel: "scan_number s \<noteq> OutOfFuel"
  by (simp add: scan_number_def Let_def scan_frac_fuel split: list.splits)

lemma parse_fuel:
  "(2 * length s < n \<longrightarrow> parse_value n s \<noteq> OutOfFuel)
   \<and> (2 * length s + 1 < n \<longrightarrow> parse_elements n els s \<noteq> OutOfFuel)
   \<and> (2 * length s + 1 < n \<longrightarrow> parse_members n ms s \<noteq> OutOfFuel)"
proof (induction n arbitrary: s els ms)
  case 0
  then show ?case by simp
next
  case (Suc n)
  have pv: "\<And>s. 2 * length s < n \<Longrightarrow> parse_value n s \<noteq> OutOfFuel"
    and pe: "\<And>s els. 2 * length s + 1 < n \<Longrightarrow> parse_elements n els s \<noteq> OutOfFuel"
    and pm: "\<And>s ms. 2 * length s + 1 < n \<Longrightarrow> parse_members n ms s \<noteq> OutOfFuel"
    using Suc by blast+
  have 1: "parse_value (Suc n) s \<noteq> OutOfFuel" if h: "2 * length s < Suc n"
  proof (cases "skip_space s")
    case Nil
    then show ?thesis by simp
  next
    case (Cons c cs)
    have cs: "length cs < length s" using Cons by (rule skip_space_Cons_length)
    show ?thesis
    proof (cases "skip_space cs")
      case Nil
      with Cons show ?thesis
        by (simp add: map_scan_OutOfFuel scan_string_fuel scan_number_fuel scan_literal_fuel)
    next
      case c2: (Cons d ds)
      have "length (d # ds) \<le> length cs" using length_skip_space [of cs] c2 by simp
      then have b: "2 * length (d # ds) + 1 < n" using cs h by simp
      have m: "parse_members n [] (d # ds) \<noteq> OutOfFuel" using b by (rule pm)
      have e: "parse_elements n [] (d # ds) \<noteq> OutOfFuel" using b by (rule pe)
      show ?thesis
      proof (cases "c = CHR ''{''")
        case True
        with Cons c2 m show ?thesis by simp
      next
        case False
        show ?thesis
        proof (cases "c = CHR ''[''")
          case True
          with Cons c2 e show ?thesis by simp
        next
          case nb: False
          with False Cons show ?thesis
            by (simp add: map_scan_OutOfFuel scan_string_fuel scan_number_fuel
                scan_literal_fuel)
        qed
      qed
    qed
  qed
  have 2: "parse_elements (Suc n) els s \<noteq> OutOfFuel" if h: "2 * length s + 1 < Suc n"
  proof (cases "parse_value n s")
    case (Parsed v1 r1)
    have l1: "length r1 < length s" using Parsed parse_length by blast
    show ?thesis
    proof (cases "skip_space r1")
      case Nil
      with Parsed show ?thesis by simp
    next
      case (Cons c cs)
      have "length cs < length r1" using Cons by (rule skip_space_Cons_length)
      then have "2 * length cs + 1 < n" using l1 h by simp
      then have "parse_elements n (els @ [v1]) cs \<noteq> OutOfFuel" by (rule pe)
      with Parsed Cons show ?thesis by simp
    qed
  next
    case OutOfFuel
    moreover have "2 * length s < n" using h by simp
    ultimately show ?thesis using pv by blast
  qed simp_all
  have 3: "parse_members (Suc n) ms s \<noteq> OutOfFuel" if h: "2 * length s + 1 < Suc n"
  proof (cases "skip_space s")
    case Nil
    then show ?thesis by simp
  next
    case (Cons q cs)
    have lcs: "length cs < length s" using Cons by (rule skip_space_Cons_length)
    show ?thesis
    proof (cases "q = CHR 0x22")
      case False
      with Cons show ?thesis by simp
    next
      case True
      show ?thesis
      proof (cases "scan_string cs")
        case (Parsed key r1)
        have l1: "length r1 < length cs" using Parsed by (rule scan_string_length)
        show ?thesis
        proof (cases "skip_space r1")
          case Nil
          with Cons True Parsed show ?thesis by simp
        next
          case c2: (Cons colon cs2)
          have l2: "length cs2 < length r1" using c2 by (rule skip_space_Cons_length)
          show ?thesis
          proof (cases "colon = CHR '':''")
            case False
            with Cons True Parsed c2 show ?thesis by simp
          next
            case col: True
            show ?thesis
            proof (cases "parse_value n cs2")
              case p2: (Parsed v1 r2)
              have l3: "length r2 < length cs2" using p2 parse_length by blast
              show ?thesis
              proof (cases "skip_space r2")
                case Nil
                with Cons True Parsed c2 col p2 show ?thesis by simp
              next
                case c3: (Cons c cs3)
                have "length cs3 < length r2" using c3 by (rule skip_space_Cons_length)
                then have "2 * length cs3 + 1 < n" using l3 l2 l1 lcs h by simp
                then have "parse_members n (ms @ [(key, v1)]) cs3 \<noteq> OutOfFuel" by (rule pm)
                with Cons True Parsed c2 col p2 c3 show ?thesis by simp
              qed
            next
              case OutOfFuel
              moreover have "2 * length cs2 < n" using l2 l1 lcs h by simp
              ultimately show ?thesis using pv by blast
            qed (use Cons True Parsed c2 col in simp_all)
          qed
        qed
      next
        case OutOfFuel
        then show ?thesis using scan_string_fuel by blast
      qed (use Cons True in simp_all)
    qed
  qed
  show ?case using 1 2 3 by blast
qed

lemma json_scan_fuel: "json_scan s \<noteq> OutOfFuel"
  using parse_fuel [of s "2 * length s + 2"] by (simp add: json_scan_def)

subsection \<open>String values and lower case\<close>

text \<open>
  \<open>unquote\<close> turns the literal text of a string into its bytes, as the decoder's
  \<^verbatim>\<open>unquote\<close> does: escapes are replaced (a \<^verbatim>\<open>\u\<close> escape by the UTF-8 encoding of its
  code point, a surrogate pair by one code point, a lone surrogate by U+FFFD), and a byte
  that does not start a well-formed UTF-8 sequence is replaced by U+FFFD.
\<close>

definition hex_val :: "char \<Rightarrow> nat" where
  "hex_val c =
     (let x = (of_char c :: nat)
      in if x \<le> 57 then x - 48 else if x \<le> 70 then x - 55 else x - 87)"

definition getu4 :: "string \<Rightarrow> nat option" where
  "getu4 s =
     (case s of
        b # u # h1 # h2 # h3 # h4 # _ \<Rightarrow>
          if b = CHR 0x5C \<and> u = CHR ''u'' \<and> is_hex h1 \<and> is_hex h2 \<and> is_hex h3 \<and> is_hex h4
          then Some (((hex_val h1 * 16 + hex_val h2) * 16 + hex_val h3) * 16 + hex_val h4)
          else None
      | _ \<Rightarrow> None)"

definition utf8_encode :: "nat \<Rightarrow> string" where
  "utf8_encode r =
     (if r < 128 then [char_of r]
      else if r < 2048 then [char_of (192 + r div 64), char_of (128 + r mod 64)]
      else if r < 65536 then
        [char_of (224 + r div 4096), char_of (128 + r div 64 mod 64), char_of (128 + r mod 64)]
      else
        [char_of (240 + r div 262144), char_of (128 + r div 4096 mod 64),
         char_of (128 + r div 64 mod 64), char_of (128 + r mod 64)])"

definition in_range :: "nat \<Rightarrow> nat \<Rightarrow> char \<Rightarrow> bool" where
  "in_range lo hi c = (lo \<le> (of_char c :: nat) \<and> (of_char c :: nat) \<le> hi)"

text \<open>The length of the well-formed UTF-8 sequence at the head of the input, \<open>0\<close> when
  there is none (the table of \<^verbatim>\<open>utf8.DecodeRune\<close>).\<close>

definition utf8_size :: "string \<Rightarrow> nat" where
  "utf8_size s =
     (case s of
        [] \<Rightarrow> 0
      | b0 # t \<Rightarrow>
          if in_range 0 127 b0 then 1
          else if in_range 194 223 b0 then
            (case t of b1 # _ \<Rightarrow> if in_range 128 191 b1 then 2 else 0 | _ \<Rightarrow> 0)
          else if in_range 224 239 b0 then
            (case t of
               b1 # b2 # _ \<Rightarrow>
                 if in_range (if b0 = CHR 0xE0 then 160 else 128) (if b0 = CHR 0xED then 159 else 191) b1
                    \<and> in_range 128 191 b2
                 then 3 else 0
             | _ \<Rightarrow> 0)
          else if in_range 240 244 b0 then
            (case t of
               b1 # b2 # b3 # _ \<Rightarrow>
                 if in_range (if b0 = CHR 0xF0 then 144 else 128) (if b0 = CHR 0xF4 then 143 else 191) b1
                    \<and> in_range 128 191 b2 \<and> in_range 128 191 b3
                 then 4 else 0
             | _ \<Rightarrow> 0)
          else 0)"

definition unescape :: "char \<Rightarrow> char" where
  "unescape e =
     (if e = CHR ''b'' then CHR 0x08 else if e = CHR ''f'' then CHR 0x0C
      else if e = CHR ''n'' then CHR 0x0A else if e = CHR ''r'' then CHR 0x0D
      else if e = CHR ''t'' then CHR 0x09 else e)"

definition replacement :: string where
  "replacement = utf8_encode 65533"

function unquote :: "string \<Rightarrow> string" where
  "unquote s =
     (case s of
        [] \<Rightarrow> []
      | c # cs \<Rightarrow>
          if c = CHR 0x5C then
            (case getu4 s of
               Some rr \<Rightarrow>
                 if 55296 \<le> rr \<and> rr < 57344 then
                   (case getu4 (drop 6 s) of
                      Some rr1 \<Rightarrow>
                        if rr < 56320 \<and> 56320 \<le> rr1 \<and> rr1 < 57344
                        then utf8_encode ((rr - 55296) * 1024 + (rr1 - 56320) + 65536)
                               @ unquote (drop 12 s)
                        else replacement @ unquote (drop 6 s)
                    | None \<Rightarrow> replacement @ unquote (drop 6 s))
                 else utf8_encode rr @ unquote (drop 6 s)
             | None \<Rightarrow>
                 (case cs of [] \<Rightarrow> [] | e # es \<Rightarrow> unescape e # unquote es))
          else if utf8_size s = 0 then replacement @ unquote cs
          else take (utf8_size s) s @ unquote (drop (utf8_size s) s))"
  by pat_completeness auto
termination
  by (relation "measure length") auto

declare unquote.simps [simp del]

text \<open>
  \<^verbatim>\<open>strings.ToLower\<close>: a string of ASCII bytes is mapped byte by byte; any other string
  goes through \<^verbatim>\<open>unicode.ToLower\<close> rune by rune, whose table is the parameter \<open>umap\<close>.
\<close>

definition ascii_lower :: "char \<Rightarrow> char" where
  "ascii_lower c = (if in_range 65 90 c then char_of ((of_char c :: nat) + 32) else c)"

definition strings_ToLower :: "(string \<Rightarrow> string) \<Rightarrow> string \<Rightarrow> string" where
  "strings_ToLower umap s = (if list_all (in_range 0 127) s then map ascii_lower s else umap s)"

subsection \<open>Decoding event records\<close>

record ActorRecord =
  Username :: string

record EventRecord =
  Actor :: ActorRecord

text \<open>
  A member of a JSON object fills the field whose name (\<^verbatim>\<open>actor\<close>, \<^verbatim>\<open>login\<close>,
  \<^verbatim>\<open>count\<close>, \<^verbatim>\<open>date\<close>) equals its key up to the case of ASCII letters. A value of the
  wrong kind is recorded as an \<^verbatim>\<open>UnmarshalTypeError\<close> and decoding goes on; the first
  such error is the one returned. \<^verbatim>\<open>null\<close> leaves the target as it is.
\<close>

definition key_matches :: "string \<Rightarrow> string \<Rightarrow> bool" where
  "key_matches name raw_key = (map ascii_lower (unquote raw_key) = name)"

definition first_error :: "error option \<Rightarrow> error option \<Rightarrow> error option" where
  "first_error saved e = (case saved of None \<Rightarrow> e | Some _ \<Rightarrow> saved)"

fun unmarshal_ActorRecord_members ::
  "(string \<times> json) list \<Rightarrow> ActorRecord \<Rightarrow> error option \<Rightarrow> ActorRecord \<times> error option" where
  "unmarshal_ActorRecord_members [] a saved = (a, saved)"
| "unmarshal_ActorRecord_members ((k, v) # ms) a saved =
     (if key_matches ''login'' k then
        (case v of
           JString raw \<Rightarrow> unmarshal_ActorRecord_members ms (a\<lparr>Username := unquote raw\<rparr>) saved
         | JNull \<Rightarrow> unmarshal_ActorRecord_members ms a saved
         | _ \<Rightarrow> unmarshal_ActorRecord_members ms a (first_error saved (Some UnmarshalTypeError)))
      else unmarshal_ActorRecord_members ms a saved)"

definition unmarshal_ActorRecord ::
  "json \<Rightarrow> ActorRecord \<Rightarrow> error option \<Rightarrow> ActorRecord \<times> error option" where
  "unmarshal_ActorRecord v a saved =
     (case v of
        JObject ms \<Rightarrow> unmarshal_ActorRecord_members ms a saved
      | JNull \<Rightarrow> (a, saved)
      | _ \<Rightarrow> (a, first_error saved (Some UnmarshalTypeError)))"

fun unmarshal_EventRecord_members ::
  "(string \<times> json) list \<Rightarrow> EventRecord \<Rightarrow> error option \<Rightarrow> EventRecord \<times> error option" where
  "unmarshal_EventRecord_members [] ev saved = (ev, saved)"
| "unmarshal_EventRecord_members ((k, v) # ms) ev saved =
     (if key_matches ''actor'' k then
        (case unmarshal_ActorRecord v (Actor ev) saved of
           (a, saved') \<Rightarrow> unmarshal_EventRecord_members ms (ev\<lparr>Actor := a\<rparr>) saved')
      else unmarshal_EventRecord_members ms ev saved)"

definition unmarshal_EventRecord :: "json \<Rightarrow> EventRecord \<Rightarrow> EventRecord \<times> error option" where
  "unmarshal_EventRecord v ev =
     (case v of
        JObject ms \<Rightarrow> unmarshal_EventRecord_members ms ev None
      | JNull \<Rightarrow> (ev, None)
      | _ \<Rightarrow> (ev, Some UnmarshalTypeError))"

text \<open>
  The decoder over the bytes still to be read. \<^verbatim>\<open>More\<close> looks at the next byte that is
  not white space. \<^verbatim>\<open>Decode\<close> reads one value: \<^verbatim>\<open>io.EOF\<close> when only white space is
  left, \<^verbatim>\<open>io.ErrUnexpectedEOF\<close> when the input ends inside the value, a syntax error when
  the text is not JSON; the value is then stored into the target.
\<close>

definition decoder_More :: "string \<Rightarrow> bool" where
  "decoder_More s =
     (case skip_space s of [] \<Rightarrow> False | c # _ \<Rightarrow> c \<noteq> CHR '']'' \<and> c \<noteq> CHR ''}'')"

definition decoder_readValue :: "string \<Rightarrow> error + json \<times> string" where
  "decoder_readValue s =
     (if skip_space s = [] then Inl EOF
      else case json_scan s of
             Parsed v rest \<Rightarrow> Inr (v, rest)
           | Truncated \<Rightarrow> Inl ErrUnexpectedEOF
           | Malformed \<Rightarrow> Inl SyntaxError
           | OutOfFuel \<Rightarrow> Inl SyntaxError)"

definition EventRecord_zero :: EventRecord where
  "EventRecord_zero = \<lparr>Actor = \<lparr>Username = []\<rparr>\<rparr>"

definition Decode_EventRecord :: "string \<Rightarrow> error + EventRecord \<times> string" where
  "Decode_EventRecord s =
     (case decoder_readValue s of
        Inl err \<Rightarrow> Inl err
      | Inr (v, rest) \<Rightarrow>
          (case unmarshal_EventRecord v EventRecord_zero of
             (event, None) \<Rightarrow> Inr (event, rest)
           | (event, Some err) \<Rightarrow> Inl err))"

lemma Decode_EventRecord_length:
  "Decode_EventRecord s = Inr (event, rest) \<Longrightarrow> length rest < length s"
  by (auto simp: Decode_EventRecord_def decoder_readValue_def
      split: sum.splits prod.splits option.splits scan.splits if_splits
      dest: json_scan_length)

text \<open>
  \<^verbatim>\<open>usernameExtractor\<close> (lines 145-160) over the bytes its reader delivers: while there is
  another element it is decoded into a fresh \<^verbatim>\<open>EventRecord\<close>, a decoding error is
  returned at once, and the lower-cased login is added to the set. \<open>umap\<close> is the table
  of \<^verbatim>\<open>unicode.ToLower\<close> (see \<open>strings_ToLower\<close>).
\<close>

function usernameExtractor ::
  "(string \<Rightarrow> string) \<Rightarrow> string \<Rightarrow> UsernameSet \<Rightarrow> error option \<times> UsernameSet" where
  "usernameExtractor umap s users =
     (if \<not> decoder_More s then (None, users)
      else case Decode_EventRecord s of
             Inl err \<Rightarrow> (Some err, users)
           | Inr (event, rest) \<Rightarrow>
               usernameExtractor umap rest
                 (Add users (strings_ToLower umap (Username (Actor event)))))"
  by pat_completeness auto
termination
  by (relation "measure (\<lambda>(umap, s, users). length s)")
    (auto dest: Decode_EventRecord_length)

declare usernameExtractor.simps [simp del]

subsection \<open>Times\<close>

text \<open>
  A \<^verbatim>\<open>time.Time\<close> is its Unix time in seconds, its nanoseconds and the offset of its
  zone east of UTC in seconds. The calendar is the proleptic Gregorian one of the
  \<^verbatim>\<open>time\<close> package: \<open>days_before_year\<close> counts the days from 0001-01-01 to the first
  day of a year, \<open>year_yday\<close> splits a day number into the year and the day within it by
  cycles of 400, 100, 4 and 1 years.
\<close>

record Time =
  unix :: int
  nsec :: int
  offset :: int

definition isLeap :: "int \<Rightarrow> bool" where
  "isLeap year = (year mod 4 = 0 \<and> (year mod 100 \<noteq> 0 \<or> year mod 400 = 0))"

definition days_before_year :: "int \<Rightarrow> int" where
  "days_before_year year =
     365 * (year - 1) + (year - 1) div 4 - (year - 1) div 100 + (year - 1) div 400"

definition daysBefore :: "int \<Rightarrow> int" where
  "daysBefore m =
     (if m \<le> 0 then 0 else if m = 1 then 31 else if m = 2 then 59 else if m = 3 then 90
      else if m = 4 then 120 else if m = 5 then 151 else if m = 6 then 181
      else if m = 7 then 212 else if m = 8 then 243 else if m = 9 then 273
      else if m = 10 then 304 else if m = 11 then 334 else 365)"

definition days_from_civil :: "int \<Rightarrow> int \<Rightarrow> int \<Rightarrow> int" where
  "days_from_civil year month day =
     days_before_year year + daysBefore (month - 1)
       + (if isLeap year \<and> 3 \<le> month then 1 else 0) + (day - 1)"

definition unix_epoch_days :: int where
  "unix_epoch_days = 719162"

text \<open>
  \<^verbatim>\<open>time.Date(year, month, day, hour, min, sec, 0, time.UTC)\<close>: a month outside 1..12
  overflows into the year; days, hours, minutes and seconds outside their ranges add up
  linearly.
\<close>

definition time_Date :: "int \<Rightarrow> int \<Rightarrow> int \<Rightarrow> int \<Rightarrow> int \<Rightarrow> int \<Rightarrow> Time" where
  "time_Date year month day hour minute sec =
     (let m = month - 1;
          y = year + m div 12;
          mon = m mod 12 + 1
      in \<lparr>unix = (days_from_civil y mon day - unix_epoch_days) * 86400
                  + hour * 3600 + minute * 60 + sec,
          nsec = 0, offset = 0\<rparr>)"

definition year_yday :: "int \<Rightarrow> int \<times> int" where
  "year_yday days =
     (let q400 = days div 146097; r = days mod 146097;
          q100 = min (r div 36524) 3; r2 = r - 36524 * q100;
          q4 = r2 div 1461; r3 = r2 mod 1461;
          q1 = min (r3 div 365) 3
      in (1 + 400 * q400 + 100 * q100 + 4 * q4 + q1, r3 - 365 * q1))"

definition month_day :: "bool \<Rightarrow> int \<Rightarrow> int \<times> int" where
  "month_day leap yday =
     (if leap \<and> yday = 59 then (2, 29)
      else let d = (if leap \<and> 59 < yday then yday - 1 else yday) in
        if d < 31 then (1, d + 1) else if d < 59 then (2, d - 30)
        else if d < 90 then (3, d - 58) else if d < 120 then (4, d - 89)
        else if d < 151 then (5, d - 119) else if d < 181 then (6, d - 150)
        else if d < 212 then (7, d - 180) else if d < 243 then (8, d - 211)
        else if d < 273 then (9, d - 242) else if d < 304 then (10, d - 272)
        else if d < 334 then (11, d - 303) else (12, d - 333))"

text \<open>Decimal digits.\<close>

definition digit_char :: "nat \<Rightarrow> char" where
  "digit_char d = char_of (48 + d)"

definition digit_val :: "char \<Rightarrow> nat" where
  "digit_val c = of_char c - 48"

fun show_nat :: "nat \<Rightarrow> string" where
  "show_nat n = (if n < 10 then [digit_char n] else show_nat (n div 10) @ [digit_char (n mod 10)])"

declare show_nat.simps [simp del]

definition show_int :: "int \<Rightarrow> string" where
  "show_int i = (if i < 0 then CHR ''-'' # show_nat (nat (- i)) else show_nat (nat i))"

definition digits_val :: "string \<Rightarrow> nat" where
  "digits_val s = foldl (\<lambda>acc c. acc * 10 + digit_val c) 0 s"

definition pad2 :: "int \<Rightarrow> string" where
  "pad2 n = [digit_char (nat n div 10 mod 10), digit_char (nat n mod 10)]"

definition pad4 :: "int \<Rightarrow> string" where
  "pad4 n = [digit_char (nat n div 1000 mod 10), digit_char (nat n div 100 mod 10),
             digit_char (nat n div 10 mod 10), digit_char (nat n mod 10)]"

definition daysIn :: "int \<Rightarrow> int \<Rightarrow> int" where
  "daysIn month year =
     (if month = 2 then (if isLeap year then 29 else 28)
      else daysBefore month - daysBefore (month - 1))"

text \<open>The calendar fields of a time in its own zone.\<close>

definition civil :: "Time \<Rightarrow> int \<times> int \<times> int \<times> int \<times> int \<times> int" where
  "civil t =
     (let loc = unix t + offset t;
          days = loc div 86400 + unix_epoch_days;
          secs = loc mod 86400;
          (year, yday) = year_yday days;
          (month, day) = month_day (isLeap year) yday
      in (year, month, day, secs div 3600, secs mod 3600 div 60, secs mod 60))"

fun trim_zeros :: "string \<Rightarrow> string" where
  "trim_zeros s = rev (dropWhile (\<lambda>c. c = CHR ''0'') (rev s))"

definition pad9 :: "int \<Rightarrow> string" where
  "pad9 n = map (\<lambda>k. digit_char (nat n div 10 ^ k mod 10)) [8, 7, 6, 5, 4, 3, 2, 1, 0]"

definition format_zone :: "int \<Rightarrow> string" where
  "format_zone off =
     (if off = 0 then ''Z''
      else let zone = \<bar>off\<bar> div 60 in
        (if off \<le> - 60 then ''-'' else ''+'') @ pad2 (zone div 60) @ '':'' @ pad2 (zone mod 60))"

text \<open>
  The text \<^verbatim>\<open>Time.MarshalJSON\<close> writes (RFC 3339 with nanoseconds, trailing zeros of the
  fraction removed); none when the year is outside 0..9999, and none when the zone is
  not \<^verbatim>\<open>Z\<close> and its hours are 24 or more.
\<close>

definition format_RFC3339 :: "Time \<Rightarrow> string option" where
  "format_RFC3339 t =
     (case civil t of (year, month, day, hour, minute, sec) \<Rightarrow>
        if year < 0 \<or> 10000 \<le> year then None
        else if offset t \<noteq> 0 \<and> 24 \<le> \<bar>offset t\<bar> div 60 div 60 then None
        else Some (pad4 year @ ''-'' @ pad2 month @ ''-'' @ pad2 day @ ''T''
                   @ pad2 hour @ '':'' @ pad2 minute @ '':'' @ pad2 sec
                   @ (if nsec t = 0 then [] else ''.'' @ trim_zeros (pad9 (nsec t)))
                   @ format_zone (offset t)))"

text \<open>
  \<^verbatim>\<open>Time.UnmarshalJSON\<close> tries two parsers of the \<^verbatim>\<open>time\<close> package in turn. The first is
  \<^verbatim>\<open>parseRFC3339\<close>: fixed-width fields with range checks, an optional fraction, and \<^verbatim>\<open>Z\<close>
  or a numeric zone.
\<close>

definition parseUint :: "string \<Rightarrow> int \<Rightarrow> int \<Rightarrow> int option" where
  "parseUint s lo hi =
     (if list_all is_digit s \<and> lo \<le> int (digits_val s) \<and> int (digits_val s) \<le> hi
      then Some (int (digits_val s)) else None)"

definition parse_zone :: "string \<Rightarrow> int option" where
  "parse_zone s =
     (if s = ''Z'' then Some 0
      else case s of
        [sg, h1, h2, colon, m1, m2] \<Rightarrow>
          (case (parseUint [h1, h2] 0 23, parseUint [m1, m2] 0 59) of
             (Some hr, Some mm) \<Rightarrow>
               if (sg = CHR ''-'' \<or> sg = CHR ''+'') \<and> colon = CHR '':''
               then Some ((if sg = CHR ''-'' then - 1 else 1) * ((hr * 60 + mm) * 60))
               else None
           | _ \<Rightarrow> None)
      | _ \<Rightarrow> None)"

definition parse_fraction :: "string \<Rightarrow> int \<times> string" where
  "parse_fraction s =
     (case s of
        dot # d # _ \<Rightarrow>
          if dot = CHR ''.'' \<and> is_digit d then
            (let ds = takeWhile is_digit (tl s);
                 ds9 = take 9 ds
             in (int (digits_val ds9) * 10 ^ (9 - length ds9), dropWhile is_digit (tl s)))
          else (0, s)
      | _ \<Rightarrow> (0, s))"

definition parseRFC3339 :: "string \<Rightarrow> Time option" where
  "parseRFC3339 s =
     (case s of
        y1 # y2 # y3 # y4 # s4 # mo1 # mo2 # s7 # d1 # d2 # s10 # h1 # h2 # s13 # mi1 # mi2 # s16
          # sc1 # sc2 # rest \<Rightarrow>
          (case parseUint [y1, y2, y3, y4] 0 9999 of None \<Rightarrow> None | Some year \<Rightarrow>
           case parseUint [mo1, mo2] 1 12 of None \<Rightarrow> None | Some month \<Rightarrow>
           case parseUint [d1, d2] 1 (daysIn month year) of None \<Rightarrow> None | Some day \<Rightarrow>
           case parseUint [h1, h2] 0 23 of None \<Rightarrow> None | Some hour \<Rightarrow>
           case parseUint [mi1, mi2] 0 59 of None \<Rightarrow> None | Some minute \<Rightarrow>
           case parseUint [sc1, sc2] 0 59 of None \<Rightarrow> None | Some sec \<Rightarrow>
             if \<not> (s4 = CHR ''-'' \<and> s7 = CHR ''-'' \<and> s10 = CHR ''T'' \<and> s13 = CHR '':'' \<and> s16 = CHR '':'')
             then None
             else (case parse_fraction rest of (ns, rest') \<Rightarrow>
                   case parse_zone rest' of None \<Rightarrow> None | Some off \<Rightarrow>
                     Some \<lparr>unix = unix (time_Date year month day hour minute sec) - off,
                           nsec = ns, offset = off\<rparr>))
      | _ \<Rightarrow> None)"

text \<open>
  The second is the layout parser, \<^verbatim>\<open>time.Parse(time.RFC3339, s)\<close>, which reads the text
  field by field. \<^verbatim>\<open>getnum\<close> reads two digits, or a single one where the width is not
  fixed (the hour); the fraction may start with a comma; the hours of a zone may be 24 and
  its minutes 60; the day is checked against the month at the end. Any field that is
  missing, malformed or out of its range ends the parse with an error.
\<close>

definition getnum :: "string \<Rightarrow> bool \<Rightarrow> (int \<times> string) option" where
  "getnum s fixed =
     (case s of
        [] \<Rightarrow> None
      | c # cs \<Rightarrow>
          if \<not> is_digit c then None
          else
            (case cs of
               [] \<Rightarrow> if fixed then None else Some (int (digit_val c), cs)
             | d # ds \<Rightarrow>
                 if is_digit d then Some (int (digit_val c) * 10 + int (digit_val d), ds)
                 else if fixed then None
                 else Some (int (digit_val c), cs)))"

definition skip_prefix :: "char \<Rightarrow> string \<Rightarrow> string option" where
  "skip_prefix p s = (case s of [] \<Rightarrow> None | c # cs \<Rightarrow> if c = p then Some cs else None)"

definition parse_long_year :: "string \<Rightarrow> (int \<times> string) option" where
  "parse_long_year s =
     (if length s < 4 \<or> \<not> list_all is_digit (take 4 s) then None
      else Some (int (digits_val (take 4 s)), drop 4 s))"

definition commaOrPeriod :: "char \<Rightarrow> bool" where
  "commaOrPeriod c = (c = CHR ''.'' \<or> c = CHR '','')"

definition parse_layout_fraction :: "string \<Rightarrow> int \<times> string" where
  "parse_layout_fraction s =
     (case s of
        sep # d # _ \<Rightarrow>
          if commaOrPeriod sep \<and> is_digit d then
            (let ds = takeWhile is_digit (tl s);
                 ds9 = take 9 ds
             in (int (digits_val ds9) * 10 ^ (9 - length ds9), dropWhile is_digit (tl s)))
          else (0, s)
      | _ \<Rightarrow> (0, s))"

definition parse_layout_zone :: "string \<Rightarrow> (int \<times> string) option" where
  "parse_layout_zone s =
     (case s of
        [] \<Rightarrow> None
      | z # zs \<Rightarrow>
          if z = CHR ''Z'' then Some (0, zs)
          else
            (case s of
               sg # h1 # h2 # colon # m1 # m2 # rest \<Rightarrow>
                 if colon \<noteq> CHR '':'' then None
                 else
                   (case (getnum [h1, h2] True, getnum [m1, m2] True) of
                      (Some (hr, _), Some (mm, _)) \<Rightarrow>
                        if 24 < hr \<or> 60 < mm then None
                        else if sg = CHR ''+'' then Some ((hr * 60 + mm) * 60, rest)
                        else if sg = CHR ''-'' then Some (- ((hr * 60 + mm) * 60), rest)
                        else None
                    | _ \<Rightarrow> None)
             | _ \<Rightarrow> None))"

definition in_range_opt :: "bool \<Rightarrow> unit option" where
  "in_range_opt ok = (if ok then Some () else None)"

definition time_Parse_RFC3339 :: "string \<Rightarrow> Time option" where
  "time_Parse_RFC3339 s = do {
     (year, s1) \<leftarrow> parse_long_year s;
     s2 \<leftarrow> skip_prefix (CHR ''-'') s1;
     (month, s3) \<leftarrow> getnum s2 True;
     in_range_opt (0 < month \<and> month \<le> 12);
     s4 \<leftarrow> skip_prefix (CHR ''-'') s3;
     (day, s5) \<leftarrow> getnum s4 True;
     s6 \<leftarrow> skip_prefix (CHR ''T'') s5;
     (hour, s7) \<leftarrow> getnum s6 False;
     in_range_opt (hour < 24);
     s8 \<leftarrow> skip_prefix (CHR '':'') s7;
     (minute, s9) \<leftarrow> getnum s8 True;
     in_range_opt (minute < 60);
     s10 \<leftarrow> skip_prefix (CHR '':'') s9;
     (sec, s11) \<leftarrow> getnum s10 True;
     in_range_opt (sec < 60);
     (ns, s12) \<leftarrow> Some (parse_layout_fraction s11);
     (off, s13) \<leftarrow> parse_layout_zone s12;
     in_range_opt (s13 = []);
     in_range_opt (1 \<le> day \<and> day \<le> daysIn month year);
     Some \<lparr>unix = unix (time_Date year month day hour minute sec) - off,
           nsec = ns, offset = off\<rparr>
   }"

text \<open>
  \<^verbatim>\<open>parseStrictRFC3339\<close>, the body of \<^verbatim>\<open>Time.UnmarshalJSON\<close>: the result of the first
  parser, and that of the layout parser when the first one refuses the text. The checks
  that would refuse what only the layout parser accepts are switched off in the package.
\<close>

definition parseStrictRFC3339 :: "string \<Rightarrow> Time option" where
  "parseStrictRFC3339 s =
     (case parseRFC3339 s of Some t \<Rightarrow> Some t | None \<Rightarrow> time_Parse_RFC3339 s)"


subsection \<open>Digests and their JSON form\<close>

record Digest =
  Count :: go_int
  Date :: Time

definition Time_zero :: Time where
  "Time_zero = \<lparr>unix = - 62135596800, nsec = 0, offset = 0\<rparr>"

definition Digest_zero :: Digest where
  "Digest_zero = \<lparr>Count = 0, Date = Time_zero\<rparr>"

text \<open>\<^verbatim>\<open>Time.MarshalJSON\<close> and the encoding of a \<^verbatim>\<open>Digest\<close>: the fields in their order,
  under the names of their tags.\<close>

definition time_MarshalJSON :: "Time \<Rightarrow> error + string" where
  "time_MarshalJSON t =
     (case format_RFC3339 t of
        None \<Rightarrow>
          Inl (if fst (civil t) < 0 \<or> 10000 \<le> fst (civil t) then ErrTimeYearRange
               else ErrTimeZoneRange)
      | Some text \<Rightarrow> Inr ([CHR 0x22] @ text @ [CHR 0x22]))"

definition marshal_Digest :: "Digest \<Rightarrow> error + string" where
  "marshal_Digest d =
     (case time_MarshalJSON (Date d) of
        Inl err \<Rightarrow> Inl err
      | Inr ts \<Rightarrow> Inr (''{\"count\":'' @ show_int (sint (Count d)) @ '',\"date\":'' @ ts @ ''}''))"

text \<open>\<^verbatim>\<open>json.NewEncoder(w).Encode(digest)\<close>: the encoding and a newline, or the error and
  nothing written.\<close>

definition Encode_Digest :: "Digest \<Rightarrow> error + string" where
  "Encode_Digest d =
     (case marshal_Digest d of Inl err \<Rightarrow> Inl err | Inr text \<Rightarrow> Inr (text @ [nl]))"




text \<open>
  Decoding into a \<^verbatim>\<open>Digest\<close>. \<^verbatim>\<open>count\<close> takes an integer literal within 64 bits (any
  other value is an \<^verbatim>\<open>UnmarshalTypeError\<close>, recorded); \<^verbatim>\<open>date\<close> goes to
  \<^verbatim>\<open>Time.UnmarshalJSON\<close> with the text of the value as it stands, whose error ends the
  decoding at once.
\<close>

definition parse_int64 :: "string \<Rightarrow> go_int option" where
  "parse_int64 s =
     (let neg = (case s of [] \<Rightarrow> False | c # _ \<Rightarrow> c = CHR ''-'');
          ds = (if neg then tl s else s);
          v = (if neg then - int (digits_val ds) else int (digits_val ds))
      in if ds \<noteq> [] \<and> list_all is_digit ds \<and> - (2 ^ 63) \<le> v \<and> v < 2 ^ 63
         then Some (word_of_int v) else None)"

fun unmarshal_Digest_members ::
  "(string \<times> json) list \<Rightarrow> Digest \<Rightarrow> error option \<Rightarrow> Digest \<times> error option" where
  "unmarshal_Digest_members [] d saved = (d, saved)"
| "unmarshal_Digest_members ((k, v) # ms) d saved =
     (if key_matches ''count'' k then
        (case v of
           JNumber raw \<Rightarrow>
             (case parse_int64 raw of
                Some n \<Rightarrow> unmarshal_Digest_members ms (d\<lparr>Count := n\<rparr>) saved
              | None \<Rightarrow> unmarshal_Digest_members ms d (first_error saved (Some UnmarshalTypeError)))
         | JNull \<Rightarrow> unmarshal_Digest_members ms d saved
         | _ \<Rightarrow> unmarshal_Digest_members ms d (first_error saved (Some UnmarshalTypeError)))
      else if key_matches ''date'' k then
        (case v of
           JNull \<Rightarrow> unmarshal_Digest_members ms d saved
         | JString raw \<Rightarrow>
             (case parseStrictRFC3339 raw of
                Some t \<Rightarrow> unmarshal_Digest_members ms (d\<lparr>Date := t\<rparr>) saved
              | None \<Rightarrow> (d, Some ErrTimeParse))
         | _ \<Rightarrow> (d, Some ErrTimeParse))
      else unmarshal_Digest_members ms d saved)"

definition unmarshal_Digest :: "json \<Rightarrow> Digest \<Rightarrow> Digest \<times> error option" where
  "unmarshal_Digest v d =
     (case v of
        JObject ms \<Rightarrow> unmarshal_Digest_members ms d None
      | JNull \<Rightarrow> (d, None)
      | _ \<Rightarrow> (d, Some UnmarshalTypeError))"

definition Decode_Digest :: "string \<Rightarrow> Digest \<Rightarrow> Digest \<times> error option" where
  "Decode_Digest s d =
     (case decoder_readValue s of
        Inl err \<Rightarrow> (d, Some err)
      | Inr (v, rest) \<Rightarrow> unmarshal_Digest v d)"

subsection \<open>The file name pattern\<close>

text \<open>
  \<^verbatim>\<open>eventFilenameRE\<close> (lines 19-21): four digits, two digits, two digits and one or two
  digits, separated by \<^verbatim>\<open>-\<close>. \<open>match_here\<close> is a match at the start of the text, with
  the greedy last group; \<^verbatim>\<open>FindStringSubmatch\<close> returns the leftmost match as the whole
  match followed by the four groups, and \<^verbatim>\<open>nil\<close> (the empty list) when there is none.
\<close>

definition match_here :: "string \<Rightarrow> string list" where
  "match_here s =
     (case s of
        y1 # y2 # y3 # y4 # s1 # m1 # m2 # s2 # d1 # d2 # s3 # h1 # rest \<Rightarrow>
          if list_all is_digit [y1, y2, y3, y4, m1, m2, d1, d2, h1]
             \<and> s1 = CHR ''-'' \<and> s2 = CHR ''-'' \<and> s3 = CHR ''-''
          then (let hr = (case rest of [] \<Rightarrow> [h1] | h2 # _ \<Rightarrow> if is_digit h2 then [h1, h2] else [h1])
                in [take (11 + length hr) s, [y1, y2, y3, y4], [m1, m2], [d1, d2], hr])
          else []
      | _ \<Rightarrow> [])"

fun FindStringSubmatch :: "string \<Rightarrow> string list" where
  "FindStringSubmatch [] = []"
| "FindStringSubmatch (c # cs) =
     (if match_here (c # cs) \<noteq> [] then match_here (c # cs) else FindStringSubmatch cs)"

text \<open>\<^verbatim>\<open>strconv.Atoi\<close>: an optional sign and decimal digits, within 64 bits; the value is
  0 with a syntax error, and the nearest bound with a range error.\<close>

definition strconv_Atoi :: "string \<Rightarrow> int \<times> error option" where
  "strconv_Atoi s =
     (let sg = (case s of [] \<Rightarrow> [] | c # _ \<Rightarrow> if c = CHR ''-'' \<or> c = CHR ''+'' then [c] else []);
          ds = drop (length sg) s;
          v = (if sg = ''-'' then - int (digits_val ds) else int (digits_val ds))
      in if ds = [] \<or> \<not> list_all is_digit ds then (0, Some ErrAtoiSyntax)
         else if v < - (2 ^ 63) then (- (2 ^ 63), Some ErrAtoiRange)
         else if 2 ^ 63 \<le> v then (2 ^ 63 - 1, Some ErrAtoiRange)
         else (v, None))"

subsection \<open>Digesting a file\<close>

text \<open>
  What the program takes from its surroundings: the gzip reader over the content of a
  file (\<^verbatim>\<open>gzip.NewReader\<close> fails on a bad header, and reading it twice delivers the same
  reads), the table of \<^verbatim>\<open>unicode.ToLower\<close>, the order in which \<^verbatim>\<open>range\<close> visits a
  set, the value of \<^verbatim>\<open>GHC_EVENTS_PATH\<close> and the result of \<^verbatim>\<open>filepath.Glob\<close>.
\<close>

record env =
  gzip_NewReader :: "string \<Rightarrow> error + reader"
  unicode_ToLower :: "string \<Rightarrow> string"
  range_order :: "UsernameSet \<Rightarrow> Username list"
  events_path :: string
  filepath_Glob :: "filesys \<Rightarrow> string \<Rightarrow> error + string list"

type_synonym digest_result = "(Digest option \<times> error option) outcome \<times> filesys \<times> UsernameSet"

text \<open>
  \<^verbatim>\<open>doDigestFile\<close> (lines 62-110). The open digest file is its path. A failing
  \<^verbatim>\<open>os.Open\<close> is returned; a gzip, counting or extraction error panics; a base name
  without a match makes \<^verbatim>\<open>dateParts\<close> nil, and \<^verbatim>\<open>dateParts[1]\<close> panics. The errors of
  \<^verbatim>\<open>Atoi\<close> are dropped. The digest is returned together with the error of its encoding.
\<close>

definition doDigestFile :: "env \<Rightarrow> string \<Rightarrow> string \<Rightarrow> filesys \<Rightarrow> UsernameSet \<Rightarrow> digest_result" where
  "doDigestFile e eventFilePath digestFile fs users =
     (case os_Open fs eventFilePath of
        Inl err \<Rightarrow> (Return (None, Some err), fs, users)
      | Inr f \<Rightarrow>
     (case gzip_NewReader e f of
        Inl err \<Rightarrow> (Panic err, fs, users)
      | Inr reader \<Rightarrow>
     (case lineCounter reader of
        (c, Some err) \<Rightarrow> (Panic err, fs, users)
      | (c, None) \<Rightarrow>
     (case usernameExtractor (unicode_ToLower e) (fst (stream reader)) users of
        (Some err, users') \<Rightarrow> (Panic err, fs, users')
      | (None, users') \<Rightarrow>
     (let dateParts = FindStringSubmatch (filepath_Base eventFilePath)
      in if length dateParts \<le> 4 then (Panic IndexOutOfRange, fs, users')
         else
           (let year = fst (strconv_Atoi (dateParts ! 1));
                month = fst (strconv_Atoi (dateParts ! 2));
                day = fst (strconv_Atoi (dateParts ! 3));
                hr = fst (strconv_Atoi (dateParts ! 4));
                fileDate = time_Date year month day hr 0 0;
                digest = \<lparr>Count = c, Date = fileDate\<rparr>
            in case Encode_Digest digest of
                 Inl err \<Rightarrow> (Return (Some digest, Some err), fs, users')
               | Inr bytes \<Rightarrow>
                   (Return (Some digest, None), write_append fs digestFile bytes, users')))))))"

text \<open>\<^verbatim>\<open>readDigest\<close> (lines 112-122): the decoded digest together with the error of the
  decoding.\<close>

definition readDigest :: "filesys \<Rightarrow> string \<Rightarrow> Digest option \<times> error option" where
  "readDigest fs digestFilePath =
     (case os_Open fs digestFilePath of
        Inl err \<Rightarrow> (None, Some err)
      | Inr f \<Rightarrow> (case Decode_Digest f Digest_zero of (d, err) \<Rightarrow> (Some d, err)))"

text \<open>\<^verbatim>\<open>DigestFile\<close> (lines 46-60).\<close>

definition DigestFile :: "env \<Rightarrow> string \<Rightarrow> filesys \<Rightarrow> UsernameSet \<Rightarrow> digest_result" where
  "DigestFile e eventFilePath fs users =
     (let digestFilePath = eventFilePath @ ''.digest.json''
      in case os_OpenFile_excl fs digestFilePath of
           Inl err \<Rightarrow>
             if err = ErrExist then (Return (readDigest fs digestFilePath), fs, users)
             else (Return (None, Some err), fs, users)
         | Inr fs' \<Rightarrow> doDigestFile e eventFilePath digestFilePath fs' users)"

subsection \<open>The summary and the driver\<close>




text \<open>
  The loop of \<^verbatim>\<open>main\<close> (lines 228-235): an error of \<^verbatim>\<open>DigestFile\<close> panics. A nil digest
  with a nil error is never returned (\<open>DigestFile_digest_or_error\<close> below); the loop's
  value for it is a panic.
\<close>

fun main_loop ::
  "env \<Rightarrow> string list \<Rightarrow> Digest list \<Rightarrow> filesys \<Rightarrow> UsernameSet
    \<Rightarrow> Digest list outcome \<times> filesys \<times> UsernameSet" where
  "main_loop e [] digests fs users = (Return digests, fs, users)"
| "main_loop e (f # eventFiles) digests fs users =
     (case DigestFile e f fs users of
        (Panic err, fs', users') \<Rightarrow> (Panic err, fs', users')
      | (Return (d, Some err), fs', users') \<Rightarrow> (Panic err, fs', users')
      | (Return (None, None), fs', users') \<Rightarrow> (Panic NilDereference, fs', users')
      | (Return (Some d, None), fs', users') \<Rightarrow> main_loop e eventFiles (digests @ [d]) fs' users')"


subsection \<open>Example data\<close>

text \<open>
  A small installation for the examples: the two event files hold the same compressed
  bytes, which the gzip reader delivers in two reads as two event records.
\<close>

definition example_stream :: string where
  "example_stream =
     ''{\"actor\":{\"login\":\"Alice\"}}'' @ [nl] @ ''{\"actor\":{\"login\":\"alice\"}}'' @ [nl]"

definition example_env :: env where
  "example_env =
     \<lparr>gzip_NewReader =
        (\<lambda>content. if content = ''gzip:example''
           then Inr [(take 10 example_stream, None), (drop 10 example_stream, None)]
           else Inl ErrGzipHeader),
      unicode_ToLower = (\<lambda>s. s),
      range_order = (\<lambda>users. if ''alice'' \<in> users then [''alice''] else []),
      events_path = ''/data'',
      filepath_Glob = (\<lambda>fs pattern. Inr [''/data/2024-01-05-9.json.gz''])\<rparr>"

definition example_fs :: filesys where
  "example_fs =
     \<lparr>files = [''/data/2024-01-05-9.json.gz'' \<mapsto> ''gzip:example'',
               ''/data/2024-01-05.json.gz'' \<mapsto> ''gzip:example''],
      denied = {}\<rparr>"

text \<open>An outcome that is a panic.\<close>

fun aborted :: "'a outcome \<Rightarrow> bool" where
  "aborted (Panic err) = True"
| "aborted (Return x) = False"

subsection \<open>Notions for the statements about the extractor\<close>

text \<open>
  The logins of the records that \<^verbatim>\<open>usernameExtractor\<close> decodes from a stream, in their
  order, up to the end of the elements or the first decoding error.
\<close>

function event_logins :: "string \<Rightarrow> string list" where
  "event_logins s =
     (if \<not> decoder_More s then []
      else case Decode_EventRecord s of
             Inl err \<Rightarrow> []
           | Inr (event, rest) \<Rightarrow> Username (Actor event) # event_logins rest)"
  by pat_completeness auto
termination
  by (relation "measure length") (auto dest: Decode_EventRecord_length)

declare event_logins.simps [simp del]

text \<open>Two byte strings that differ at most in the case of ASCII letters.\<close>

definition differ_only_in_case :: "string \<Rightarrow> string \<Rightarrow> bool" where
  "differ_only_in_case a b = list_all2 (\<lambda>x y. ascii_lower x = ascii_lower y) a b"

text \<open>
  A JSON element without a login: \<^verbatim>\<open>null\<close>, or an object each of whose \<^verbatim>\<open>actor\<close>
  members is \<^verbatim>\<open>null\<close> or an object each of whose \<^verbatim>\<open>login\<close> members is \<^verbatim>\<open>null\<close> or the
  empty string.
\<close>

definition login_empty :: "json \<Rightarrow> bool" where
  "login_empty v = (case v of JNull \<Rightarrow> True | JString raw \<Rightarrow> unquote raw = [] | _ \<Rightarrow> False)"

definition actor_lacks_login :: "json \<Rightarrow> bool" where
  "actor_lacks_login v =
     (case v of
        JNull \<Rightarrow> True
      | JObject ms \<Rightarrow> list_all (\<lambda>(k, x). if key_matches ''login'' k then login_empty x else True) ms
      | _ \<Rightarrow> False)"

definition lacks_login :: "json \<Rightarrow> bool" where
  "lacks_login v =
     (case v of
        JNull \<Rightarrow> True
      | JObject ms \<Rightarrow> list_all (\<lambda>(k, x). if key_matches ''actor'' k then actor_lacks_login x else True) ms
      | _ \<Rightarrow> False)"

text \<open>The example installation after a run that stopped between creating a cache artifact
  and writing it, and after one that stopped inside the write.\<close>

definition example_fs_empty_artifact :: filesys where
  "example_fs_empty_artifact =
     example_fs\<lparr>files := (files example_fs)(''/data/2024-01-05-9.json.gz.digest.json'' \<mapsto> [])\<rparr>"

definition example_fs_partial_artifact :: filesys where
  "example_fs_partial_artifact =
     example_fs\<lparr>files := (files example_fs)
       (''/data/2024-01-05-9.json.gz.digest.json'' \<mapsto> ''{\"count\":2,\"da'')\<rparr>"


subsection \<open>Notions for the statement about the summary\<close>

text \<open>
  A digest that \<^verbatim>\<open>encoding/json\<close> can encode, and a cache artifact that is the encoding
  of the digest it decodes to, as is every artifact that the program wrote itself.
\<close>

definition encodable :: "Digest \<Rightarrow> bool" where
  "encodable d = (case marshal_Digest d of Inl err \<Rightarrow> False | Inr text \<Rightarrow> True)"

definition own_artifact :: "string \<Rightarrow> bool" where
  "own_artifact content =
     (case Decode_Digest content Digest_zero of
        (d, None) \<Rightarrow> Encode_Digest d = Inr content
      | (d, Some err) \<Rightarrow> False)"

definition own_artifacts :: "filesys \<Rightarrow> string list \<Rightarrow> bool" where
  "own_artifacts fs eventFiles =
     list_all (\<lambda>f. case files fs (f @ ''.digest.json'') of
                      None \<Rightarrow> True
                    | Some content \<Rightarrow> own_artifact content) eventFiles"


section \<open>Properties\<close>

subsection \<open>Helper lemmas\<close>

lemma lineCounter_loop_stream:
  "stream r = (s, None) \<Longrightarrow>
   lineCounter_loop r count = (count + of_nat (bytes_Count s nl), None)"
proof (induction r arbitrary: s count)
  case Nil
  then show ?case by (simp add: bytes_Count_def)
next
  case (Cons rr r)
  obtain buf e where rr: "rr = (buf, e)" by (cases rr)
  show ?case
  proof (cases "e = Some EOF")
    case True
    with Cons.prems rr show ?thesis by simp
  next
    case False
    with Cons.prems rr have e: "e = None" by (auto split: if_splits)
    obtain s' where s': "stream r = (s', None)" and s: "s = buf @ s'"
      using Cons.prems rr e by (cases "stream r") auto
    from Cons.IH [OF s'] show ?thesis
      using rr e s by (simp add: bytes_Count_def add.assoc)
  qed
qed

lemma bytes_Count_terminated:
  "\<forall>l\<in>set ls. nl \<notin> set l \<Longrightarrow> bytes_Count (terminated_lines ls) nl = length ls"
proof (induction ls)
  case Nil
  then show ?case by (simp add: bytes_Count_def terminated_lines_def)
next
  case (Cons l ls)
  have "filter (\<lambda>c. c = nl) l = []"
    using Cons.prems by (auto simp: filter_empty_conv)
  with Cons show ?case by (simp add: bytes_Count_def terminated_lines_def)
qed

lemma bytes_Count_unterminated:
  assumes "\<forall>l\<in>set ls. nl \<notin> set l" and "ls \<noteq> []"
  shows "bytes_Count (unterminated_lines ls) nl = length ls - 1"
proof -
  have b: "\<forall>l\<in>set (butlast ls). nl \<notin> set l"
    using assms(1) by (auto dest: in_set_butlastD)
  have "filter (\<lambda>c. c = nl) (last ls) = []"
    using assms by (auto simp: filter_empty_conv)
  then have "bytes_Count (unterminated_lines ls) nl = bytes_Count (terminated_lines (butlast ls)) nl"
    by (simp add: bytes_Count_def unterminated_lines_def)
  then show ?thesis
    using bytes_Count_terminated [OF b] by simp
qed

lemma strings_Split_nonempty: "strings_Split s sep \<noteq> []"
  by (induction s) (auto split: list.splits)

lemma strings_Split_last_sep_aux:
  "s \<noteq> [] \<Longrightarrow> last s = sep \<Longrightarrow>
   last (strings_Split s sep) = [] \<and> 2 \<le> length (strings_Split s sep)"
proof (induction s)
  case Nil
  then show ?case by simp
next
  case (Cons c cs)
  show ?case
  proof (cases "cs = []")
    case True
    with Cons.prems show ?thesis by simp
  next
    case False
    with Cons have ih: "last (strings_Split cs sep) = [] \<and> 2 \<le> length (strings_Split cs sep)"
      by simp
    then obtain seg seg' segs where sp: "strings_Split cs sep = seg # seg' # segs"
      by (cases "strings_Split cs sep"; cases "tl (strings_Split cs sep)") auto
    with ih show ?thesis by auto
  qed
qed

lemma strings_Split_last_sep:
  "s \<noteq> [] \<Longrightarrow> last s = sep \<Longrightarrow> [] \<in> set (strings_Split s sep)"
  using strings_Split_last_sep_aux [of s sep] last_in_set [of "strings_Split s sep"]
  by (metis strings_Split_nonempty)

lemma fold_Add: "fold (\<lambda>u users. Add users u) us acc = acc \<union> set us"
  by (induction us arbitrary: acc) (auto simp: Add_def)

lemma digits_val_snoc: "digits_val (s @ [c]) = digits_val s * 10 + digit_val c"
  by (simp add: digits_val_def)

lemma strconv_Atoi_digits:
  assumes "s \<noteq> []" and "list_all is_digit s" and "length s \<le> 4"
  shows "strconv_Atoi s = (int (digits_val s), None)"
proof -
  obtain c cs where s: "s = c # cs" using assms(1) by (cases s) auto
  have c: "is_digit c" using assms(2) s by simp
  then have ns: "c \<noteq> CHR ''-'' \<and> c \<noteq> CHR ''+''" by (auto simp: is_digit_def)
  have dv: "\<And>c. is_digit c \<Longrightarrow> digit_val c \<le> 9"
    by (auto simp: is_digit_def digit_val_def)
  have bound: "\<And>t. list_all is_digit t \<Longrightarrow> digits_val t < 10 ^ length t"
  proof -
    fix t show "list_all is_digit t \<Longrightarrow> digits_val t < 10 ^ length t"
    proof (induction t rule: rev_induct)
      case Nil
      then show ?case by (simp add: digits_val_def)
    next
      case (snoc x xs)
      then have "digits_val xs < 10 ^ length xs" and "digit_val x \<le> 9"
        using dv by auto
      then show ?case by (simp add: digits_val_snoc)
    qed
  qed
  have "digits_val s < 10 ^ length s" using bound assms(2) by blast
  also have "\<dots> \<le> 10 ^ 4" using assms(3) by (intro power_increasing) auto
  finally have "int (digits_val s) < 2 ^ 63" by simp
  then show ?thesis
    using s ns assms(2) by (simp add: strconv_Atoi_def Let_def)
qed

lemma FindStringSubmatch_leftmost:
  assumes "\<forall>k<length pre. match_here (drop k (pre @ s)) = []" and "match_here s \<noteq> []"
  shows "FindStringSubmatch (pre @ s) = match_here s"
  using assms
proof (induction pre)
  case Nil
  then show ?case by (cases s) (auto simp: match_here_def)
next
  case (Cons c pre)
  have 0: "match_here (c # pre @ s) = []" using Cons.prems(1) by (auto dest: spec [of _ 0])
  have "\<forall>k<length pre. match_here (drop k (pre @ s)) = []"
  proof (intro allI impI)
    fix k assume "k < length pre"
    then have "match_here (drop (Suc k) ((c # pre) @ s)) = []"
      using Cons.prems(1) by (auto dest!: spec [of _ "Suc k"])
    then show "match_here (drop k (pre @ s)) = []" by simp
  qed
  then show ?case using Cons 0 by simp
qed

lemma match_here_groups:
  assumes "length y = 4" "length m = 2" "length d = 2" "length h = 1 \<or> length h = 2"
    and "list_all is_digit (y @ m @ d @ h)"
    and "length h = 1 \<longrightarrow> (case post of [] \<Rightarrow> True | c # _ \<Rightarrow> \<not> is_digit c)"
  shows "match_here (y @ ''-'' @ m @ ''-'' @ d @ ''-'' @ h @ post)
     = [y @ ''-'' @ m @ ''-'' @ d @ ''-'' @ h, y, m, d, h]"
proof -
  obtain y1 y2 y3 y4 where y: "y = [y1, y2, y3, y4]"
    using assms(1) by (auto simp: length_Suc_conv eval_nat_numeral)
  obtain m1 m2 where m: "m = [m1, m2]"
    using assms(2) by (auto simp: length_Suc_conv eval_nat_numeral)
  obtain d1 d2 where d: "d = [d1, d2]"
    using assms(3) by (auto simp: length_Suc_conv eval_nat_numeral)
  from assms(4) show ?thesis
  proof
    assume "length h = 1"
    then obtain h1 where h: "h = [h1]" by (auto simp: length_Suc_conv)
    show ?thesis using assms(5,6) y m d h
      by (cases post) (auto simp: match_here_def Let_def)
  next
    assume "length h = 2"
    then obtain h1 h2 where h: "h = [h1, h2]"
      by (auto simp: length_Suc_conv eval_nat_numeral)
    show ?thesis using assms(5) y m d h
      by (auto simp: match_here_def Let_def)
  qed
qed

lemma match_here_shape:
  "match_here s \<noteq> [] \<Longrightarrow>
   \<exists>whole y m d h. match_here s = [whole, y, m, d, h] \<and> length y = 4 \<and> length m = 2
     \<and> length d = 2 \<and> (length h = 1 \<or> length h = 2) \<and> list_all is_digit (y @ m @ d @ h)"
  unfolding match_here_def
  by (auto split: list.splits if_splits simp: Let_def)

lemma FindStringSubmatch_shape:
  "FindStringSubmatch s \<noteq> [] \<Longrightarrow>
   \<exists>whole y m d h. FindStringSubmatch s = [whole, y, m, d, h] \<and> length y = 4 \<and> length m = 2
     \<and> length d = 2 \<and> (length h = 1 \<or> length h = 2) \<and> list_all is_digit (y @ m @ d @ h)"
  by (induction s) (auto dest: match_here_shape simp del: list_all_append)

lemma doDigestFile_matched:
  assumes "os_Open fs path = Inr f" and "gzip_NewReader e f = Inr reader"
    and "lineCounter reader = (c, None)"
    and "usernameExtractor (unicode_ToLower e) (fst (stream reader)) users = (None, users')"
    and "FindStringSubmatch (filepath_Base path) = [whole, y, m, d, h]"
    and "length y = 4" "length m = 2" "length d = 2" "length h = 1 \<or> length h = 2"
    and "list_all is_digit (y @ m @ d @ h)"
  shows "\<exists>err fs'. doDigestFile e path digestFile fs users =
     (Return (Some \<lparr>Count = c, Date = time_Date (int (digits_val y)) (int (digits_val m))
        (int (digits_val d)) (int (digits_val h)) 0 0\<rparr>, err), fs', users')"
proof -
  have a: "strconv_Atoi y = (int (digits_val y), None)" "strconv_Atoi m = (int (digits_val m), None)"
    "strconv_Atoi d = (int (digits_val d), None)" "strconv_Atoi h = (int (digits_val h), None)"
    using assms(6-10) by (auto intro!: strconv_Atoi_digits)
  show ?thesis
    using assms(1-5) a
    by (cases "Encode_Digest \<lparr>Count = c, Date = time_Date (int (digits_val y)) (int (digits_val m))
        (int (digits_val d)) (int (digits_val h)) 0 0\<rparr>")
      (simp_all add: doDigestFile_def Let_def)
qed

lemma DigestFile_hit:
  "files fs (path @ ''.digest.json'') = Some content \<Longrightarrow>
   DigestFile e path fs users = (Return (readDigest fs (path @ ''.digest.json'')), fs, users)"
  by (simp add: DigestFile_def os_OpenFile_excl_def Let_def)

lemma DigestFile_denied:
  "files fs (path @ ''.digest.json'') = None \<Longrightarrow> path @ ''.digest.json'' \<in> denied fs \<Longrightarrow>
   DigestFile e path fs users = (Return (None, Some ErrPermission), fs, users)"
  by (simp add: DigestFile_def os_OpenFile_excl_def Let_def)

lemma DigestFile_fresh:
  "files fs (path @ ''.digest.json'') = None \<Longrightarrow> path @ ''.digest.json'' \<notin> denied fs \<Longrightarrow>
   DigestFile e path fs users =
     doDigestFile e path (path @ ''.digest.json'')
       (fs\<lparr>files := (files fs)(path @ ''.digest.json'' \<mapsto> [])\<rparr>) users"
  by (simp add: DigestFile_def os_OpenFile_excl_def Let_def)

lemma usernameExtractor_users:
  "snd (usernameExtractor umap s users) = users \<union> set (map (strings_ToLower umap) (event_logins s))"
proof (induction umap s users rule: usernameExtractor.induct)
  case (1 umap s users)
  show ?case
  proof (cases "decoder_More s")
    case False
    then show ?thesis
      by (simp add: usernameExtractor.simps [of umap s] event_logins.simps [of s])
  next
    case True
    show ?thesis
    proof (cases "Decode_EventRecord s")
      case (Inl err)
      with True show ?thesis
        by (simp add: usernameExtractor.simps [of umap s] event_logins.simps [of s])
    next
      case (Inr p)
      obtain event rest where p: "p = (event, rest)" by (cases p)
      have "snd (usernameExtractor umap s users)
          = snd (usernameExtractor umap rest (Add users (strings_ToLower umap (Username (Actor event)))))"
        using True Inr p by (simp add: usernameExtractor.simps [of umap s])
      also have "\<dots> = Add users (strings_ToLower umap (Username (Actor event)))
                      \<union> set (map (strings_ToLower umap) (event_logins rest))"
        using "1.IH" True Inr p by simp
      also have "\<dots> = users \<union> set (map (strings_ToLower umap) (event_logins s))"
        using True Inr p by (simp add: Add_def event_logins.simps [of s])
      finally show ?thesis .
    qed
  qed
qed

lemma differ_only_in_case_lower:
  "differ_only_in_case a b \<Longrightarrow> map ascii_lower a = map ascii_lower b"
  unfolding differ_only_in_case_def
  by (induction a b rule: list_all2_induct) auto

lemma strings_ToLower_ascii:
  "list_all (in_range 0 127) s \<Longrightarrow> strings_ToLower umap s = map ascii_lower s"
  by (simp add: strings_ToLower_def)

lemma unmarshal_ActorRecord_members_lacking:
  "list_all (\<lambda>(k, x). if key_matches ''login'' k then login_empty x else True) ms \<Longrightarrow>
   Username a = [] \<Longrightarrow>
   \<exists>a'. unmarshal_ActorRecord_members ms a None = (a', None) \<and> Username a' = []"
proof (induction ms arbitrary: a)
  case Nil
  then show ?case by simp
next
  case (Cons m ms)
  obtain k v where m: "m = (k, v)" by (cases m)
  show ?case
  proof (cases "key_matches ''login'' k")
    case False
    with Cons m show ?thesis by simp
  next
    case True
    with Cons.prems m have le: "login_empty v" by simp
    show ?thesis
    proof (cases v)
      case JNull
      with Cons m True show ?thesis by simp
    next
      case (JString raw)
      with le have "unquote raw = []" by (simp add: login_empty_def)
      with Cons.IH [of "a\<lparr>Username := []\<rparr>"] Cons.prems m True JString show ?thesis by simp
    qed (use le in \<open>simp_all add: login_empty_def\<close>)
  qed
qed

lemma unmarshal_ActorRecord_lacking:
  assumes "actor_lacks_login v" and "Username a = []"
  shows "\<exists>a'. unmarshal_ActorRecord v a None = (a', None) \<and> Username a' = []"
proof (cases v)
  case (JObject ms)
  from assms(1) JObject
  have "list_all (\<lambda>(k, x). if key_matches ''login'' k then login_empty x else True) ms"
    by (simp add: actor_lacks_login_def)
  from unmarshal_ActorRecord_members_lacking [OF this assms(2)] JObject show ?thesis
    by (simp add: unmarshal_ActorRecord_def)
next
  case JNull
  then show ?thesis using assms(2) by (simp add: unmarshal_ActorRecord_def)
qed (use assms in \<open>simp_all add: actor_lacks_login_def\<close>)

lemma unmarshal_EventRecord_members_lacking:
  "list_all (\<lambda>(k, x). if key_matches ''actor'' k then actor_lacks_login x else True) ms \<Longrightarrow>
   Username (Actor ev) = [] \<Longrightarrow>
   \<exists>ev'. unmarshal_EventRecord_members ms ev None = (ev', None) \<and> Username (Actor ev') = []"
proof (induction ms arbitrary: ev)
  case Nil
  then show ?case by simp
next
  case (Cons m ms)
  obtain k v where m: "m = (k, v)" by (cases m)
  show ?case
  proof (cases "key_matches ''actor'' k")
    case False
    with Cons m show ?thesis by simp
  next
    case True
    with Cons.prems m have "actor_lacks_login v" by simp
    then obtain a' where a': "unmarshal_ActorRecord v (Actor ev) None = (a', None)" "Username a' = []"
      using unmarshal_ActorRecord_lacking Cons.prems(2) by blast
    have "Username (Actor (ev\<lparr>Actor := a'\<rparr>)) = []" using a' by simp
    from Cons.IH [OF _ this] Cons.prems(1) m True a' show ?thesis by simp
  qed
qed

lemma unmarshal_EventRecord_lacking:
  assumes "lacks_login v"
  shows "\<exists>ev'. unmarshal_EventRecord v EventRecord_zero = (ev', None) \<and> Username (Actor ev') = []"
proof (cases v)
  case (JObject ms)
  have z: "Username (Actor EventRecord_zero) = []" by (simp add: EventRecord_zero_def)
  from assms JObject
  have "list_all (\<lambda>(k, x). if key_matches ''actor'' k then actor_lacks_login x else True) ms"
    by (simp add: lacks_login_def)
  from unmarshal_EventRecord_members_lacking [OF this z] JObject show ?thesis
    by (simp add: unmarshal_EventRecord_def)
next
  case JNull
  then show ?thesis by (simp add: unmarshal_EventRecord_def EventRecord_zero_def)
qed (use assms in \<open>simp_all add: lacks_login_def\<close>)

lemma decoder_readValue_More:
  assumes "decoder_readValue s = Inr (v, rest)"
  shows "decoder_More s"
proof -
  have js: "json_scan s = Parsed v rest" and ne: "skip_space s \<noteq> []"
    using assms by (auto simp: decoder_readValue_def split: if_splits scan.splits)
  obtain c cs where sk: "skip_space s = c # cs" using ne by (cases "skip_space s") auto
  have "parse_value (Suc (2 * length s + 1)) s = Parsed v rest"
    using js by (simp add: json_scan_def)
  then have "c \<noteq> CHR '']'' \<and> c \<noteq> CHR ''}''"
    using sk by (auto simp: is_digit_def split: if_splits)
  then show ?thesis using sk by (simp add: decoder_More_def)
qed

lemma cycle_div_facts:
  fixes q400 q100 q4 q1 :: int
  assumes "0 \<le> q100" "q100 \<le> 3" "0 \<le> q4" "q4 \<le> 24" "0 \<le> q1" "q1 \<le> 3"
  shows "(400 * q400 + 100 * q100 + 4 * q4 + q1) div 4 = 100 * q400 + 25 * q100 + q4"
    and "(400 * q400 + 100 * q100 + 4 * q4 + q1) div 100 = 4 * q400 + q100"
    and "(400 * q400 + 100 * q100 + 4 * q4 + q1) div 400 = q400"
proof -
  have a: "400 * q400 + 100 * q100 + 4 * q4 + q1 = q1 + (100 * q400 + 25 * q100 + q4) * 4"
    by simp
  have b: "400 * q400 + 100 * q100 + 4 * q4 + q1 = (4 * q4 + q1) + (4 * q400 + q100) * 100"
    by simp
  have c: "400 * q400 + 100 * q100 + 4 * q4 + q1 = (100 * q100 + 4 * q4 + q1) + q400 * 400"
    by simp
  show "(400 * q400 + 100 * q100 + 4 * q4 + q1) div 4 = 100 * q400 + 25 * q100 + q4"
    unfolding a using assms by (simp add: div_pos_pos_trivial)
  show "(400 * q400 + 100 * q100 + 4 * q4 + q1) div 100 = 4 * q400 + q100"
    unfolding b using assms by (simp add: div_pos_pos_trivial)
  show "(400 * q400 + 100 * q100 + 4 * q4 + q1) div 400 = q400"
    unfolding c using assms by (simp add: div_pos_pos_trivial)
qed

lemma days_before_year_cycles:
  fixes q400 q100 q4 q1 :: int
  assumes "0 \<le> q100" "q100 \<le> 3" "0 \<le> q4" "q4 \<le> 24" "0 \<le> q1" "q1 \<le> 3"
  shows "days_before_year (1 + 400 * q400 + 100 * q100 + 4 * q4 + q1)
     = 146097 * q400 + 36524 * q100 + 1461 * q4 + 365 * q1"
proof -
  have e: "1 + 400 * q400 + 100 * q100 + 4 * q4 + q1 - 1 = 400 * q400 + 100 * q100 + 4 * q4 + q1"
    by simp
  show ?thesis
    unfolding days_before_year_def e cycle_div_facts [OF assms] by simp
qed

lemma sub_cycle:
  fixes r k :: int
  assumes "0 \<le> r" "r \<le> 4 * k" "0 < k"
  shows "0 \<le> min (r div k) 3 \<and> min (r div k) 3 \<le> 3"
    and "0 \<le> r - k * min (r div k) 3 \<and> r - k * min (r div k) 3 \<le> k"
    and "r - k * min (r div k) 3 = k \<longrightarrow> r = 4 * k \<and> min (r div k) 3 = 3"
proof -
  have nn: "0 \<le> r div k" using assms by (simp add: pos_imp_zdiv_nonneg_iff)
  show "0 \<le> min (r div k) 3 \<and> min (r div k) 3 \<le> 3" using nn by simp
  have both: "(0 \<le> r - k * min (r div k) 3 \<and> r - k * min (r div k) 3 \<le> k)
      \<and> (r - k * min (r div k) 3 = k \<longrightarrow> r = 4 * k \<and> min (r div k) 3 = 3)"
  proof (cases "r = 4 * k")
    case True
    then have "r div k = 4" using assms(3) by simp
    then show ?thesis using True assms(3) by simp
  next
    case False
    then have lt: "r < 4 * k" using assms(2) by simp
    have dm: "k * (r div k) + r mod k = r" by simp
    have b: "0 \<le> r mod k" "r mod k < k" using assms(3) by simp_all
    have "r div k < 4"
    proof (rule ccontr)
      assume "\<not> r div k < 4"
      then have "4 \<le> r div k" by simp
      then have "k * 4 \<le> k * (r div k)" using assms(3) by (intro mult_left_mono) simp_all
      with dm b(1) lt show False by linarith
    qed
    then have m: "min (r div k) 3 = r div k" by simp
    have e: "r - k * (r div k) = r mod k" using dm by linarith
    show ?thesis using b unfolding m e by simp
  qed
  from both show "0 \<le> r - k * min (r div k) 3 \<and> r - k * min (r div k) 3 \<le> k" by (rule conjunct1)
  from both show "r - k * min (r div k) 3 = k \<longrightarrow> r = 4 * k \<and> min (r div k) 3 = 3" by (rule conjunct2)
qed

lemma year_yday_cycles:
  fixes n :: int
  defines "r \<equiv> n mod 146097"
  defines "q100 \<equiv> min (r div 36524) 3"
  defines "r2 \<equiv> r - 36524 * q100"
  defines "q4 \<equiv> r2 div 1461"
  defines "r3 \<equiv> r2 mod 1461"
  defines "q1 \<equiv> min (r3 div 365) 3"
  shows "year_yday n = (1 + 400 * (n div 146097) + 100 * q100 + 4 * q4 + q1, r3 - 365 * q1)"
    and "0 \<le> q100 \<and> q100 \<le> 3" and "0 \<le> q4 \<and> q4 \<le> 24" and "0 \<le> q1 \<and> q1 \<le> 3"
    and "n = 146097 * (n div 146097) + 36524 * q100 + 1461 * q4 + 365 * q1 + (r3 - 365 * q1)"
    and "0 \<le> r3 - 365 * q1" and "r3 - 365 * q1 \<le> 365"
    and "r3 - 365 * q1 = 365 \<longrightarrow> q1 = 3 \<and> (q4 = 24 \<longrightarrow> q100 = 3)"
proof -
  have "r < 146097" by (simp add: r_def)
  then have r: "0 \<le> r" "r \<le> 4 * 36524" by (simp_all add: r_def)
  note c1 = sub_cycle [OF r, folded q100_def r2_def]
  show q100: "0 \<le> q100 \<and> q100 \<le> 3" using c1(1) by simp
  have r2: "0 \<le> r2" "r2 \<le> 36524" "r2 = 36524 \<longrightarrow> q100 = 3"
    using c1(2,3) by simp_all
  have "r2 div 1461 \<le> 36524 div 1461" using r2(2) by (intro zdiv_mono1) simp_all
  then show q4: "0 \<le> q4 \<and> q4 \<le> 24"
    using r2(1) by (simp add: q4_def pos_imp_zdiv_nonneg_iff)
  have "r3 < 1461" by (simp add: r3_def)
  then have r3: "0 \<le> r3" "r3 \<le> 4 * 365" "r2 = 1461 * q4 + r3"
    by (simp_all add: r3_def q4_def)
  note c2 = sub_cycle [OF r3(1,2), folded q1_def]
  show q1: "0 \<le> q1 \<and> q1 \<le> 3" using c2(1) by simp
  show "year_yday n = (1 + 400 * (n div 146097) + 100 * q100 + 4 * q4 + q1, r3 - 365 * q1)"
    by (simp add: year_yday_def Let_def r_def q100_def r2_def q4_def r3_def q1_def)
  have "n = 146097 * (n div 146097) + r" by (simp add: r_def)
  then show "n = 146097 * (n div 146097) + 36524 * q100 + 1461 * q4 + 365 * q1 + (r3 - 365 * q1)"
    using r3(3) by (simp add: r2_def)
  show "0 \<le> r3 - 365 * q1" "r3 - 365 * q1 \<le> 365"
    using c2(2) by simp_all
  show "r3 - 365 * q1 = 365 \<longrightarrow> q1 = 3 \<and> (q4 = 24 \<longrightarrow> q100 = 3)"
  proof (intro impI conjI)
    assume a: "r3 - 365 * q1 = 365"
    then show "q1 = 3" using c2(3) by simp
    have "r3 = 1460" using a c2(3) by simp
    moreover assume "q4 = 24"
    ultimately have "r2 = 36524" using r3(3) by simp
    then show "q100 = 3" using r2(3) by simp
  qed
qed

lemma year_yday_sound:
  assumes "year_yday n = (y, yd)"
  shows "days_before_year y + yd = n" and "0 \<le> yd" and "yd < (if isLeap y then 366 else 365)"
proof -
  define q400 where "q400 = n div 146097"
  define q100 where "q100 = min (n mod 146097 div 36524) 3"
  define q4 where "q4 = (n mod 146097 - 36524 * q100) div 1461"
  define r3 where "r3 = (n mod 146097 - 36524 * q100) mod 1461"
  define q1 where "q1 = min (r3 div 365) 3"
  note c = year_yday_cycles [of n, folded q400_def q100_def q4_def r3_def q1_def]
  have y: "y = 1 + 400 * q400 + 100 * q100 + 4 * q4 + q1" and yd: "yd = r3 - 365 * q1"
    using assms c(1) by simp_all
  have b: "0 \<le> q100" "q100 \<le> 3" "0 \<le> q4" "q4 \<le> 24" "0 \<le> q1" "q1 \<le> 3"
    using c(2,3,4) by simp_all
  have "days_before_year y = 146097 * q400 + 36524 * q100 + 1461 * q4 + 365 * q1"
    unfolding y by (rule days_before_year_cycles [OF b])
  then show "days_before_year y + yd = n" using c(5) yd by simp
  show "0 \<le> yd" using c(6) yd by simp
  show "yd < (if isLeap y then 366 else 365)"
  proof (cases "yd = 365")
    case False
    then show ?thesis using c(7) yd by simp
  next
    case True
    then have q1: "q1 = 3" and q: "q4 = 24 \<longrightarrow> q100 = 3" using c(8) yd by simp_all
    have y4: "y = 4 * (100 * q400 + 25 * q100 + q4 + 1)" using y q1 by simp
    have m4: "y mod 4 = 0" unfolding y4 by simp
    have "isLeap y"
    proof (cases "q4 = 24")
      case True
      then have e: "y = 400 * (q400 + 1)" using y q1 q by simp
      have "y mod 400 = 0" unfolding e by simp
      with m4 show ?thesis by (simp add: isLeap_def)
    next
      case False
      then have s: "0 < 4 * q4 + 4" "4 * q4 + 4 < 100" using b by simp_all
      have e: "y = (4 * q4 + 4) + (4 * q400 + q100) * 100" using y q1 by simp
      have "y mod 100 = (4 * q4 + 4) mod 100" unfolding e by (rule mod_mult_self1)
      also have "\<dots> = 4 * q4 + 4" using s by simp
      finally have "y mod 100 \<noteq> 0" using s by simp
      with m4 show ?thesis by (simp add: isLeap_def)
    qed
    then show ?thesis using True by simp
  qed
qed

lemma month_day_sound:
  assumes "0 \<le> yd" and "yd < (if leap then 366 else 365)" and "month_day leap yd = (m, dd)"
  shows "1 \<le> m \<and> m \<le> 12 \<and> 1 \<le> dd \<and> dd \<le> 31
    \<and> dd \<le> (if m = 2 then (if leap then 29 else 28) else daysBefore m - daysBefore (m - 1))
    \<and> daysBefore (m - 1) + (if leap \<and> 3 \<le> m then 1 else 0) + (dd - 1) = yd"
proof (cases "leap \<and> yd = 59")
  case True
  then show ?thesis using assms by (simp add: month_day_def daysBefore_def)
next
  case False
  define d where "d = (if leap \<and> 59 < yd then yd - 1 else yd)"
  have d: "0 \<le> d" "d < 365" "leap \<and> 59 \<le> d \<longrightarrow> yd = d + 1" "\<not> (leap \<and> 59 \<le> d) \<longrightarrow> yd = d"
    using assms(1,2) False by (auto simp: d_def split: if_splits)
  have md: "(m, dd) =
       (if d < 31 then (1, d + 1) else if d < 59 then (2, d - 30)
        else if d < 90 then (3, d - 58) else if d < 120 then (4, d - 89)
        else if d < 151 then (5, d - 119) else if d < 181 then (6, d - 150)
        else if d < 212 then (7, d - 180) else if d < 243 then (8, d - 211)
        else if d < 273 then (9, d - 242) else if d < 304 then (10, d - 272)
        else if d < 334 then (11, d - 303) else (12, d - 333))"
    using assms(3) False unfolding month_day_def d_def Let_def by simp
  consider "d < 31" | "31 \<le> d" "d < 59" | "59 \<le> d" "d < 90" | "90 \<le> d" "d < 120"
    | "120 \<le> d" "d < 151" | "151 \<le> d" "d < 181" | "181 \<le> d" "d < 212" | "212 \<le> d" "d < 243"
    | "243 \<le> d" "d < 273" | "273 \<le> d" "d < 304" | "304 \<le> d" "d < 334" | "334 \<le> d"
    by linarith
  then show ?thesis
    using md d by cases (simp_all add: daysBefore_def)
qed

lemma digit_char_props:
  assumes "d < 10"
  shows "is_digit (digit_char d)" and "digit_val (digit_char d) = d"
  using assms by (simp_all add: is_digit_def digit_char_def digit_val_def)

lemma pad2_parse:
  assumes "0 \<le> n" and "n < 100"
  shows "list_all is_digit (pad2 n)" and "int (digits_val (pad2 n)) = n"
proof -
  have a: "nat n div 10 mod 10 < 10" "nat n mod 10 < 10" by simp_all
  show "list_all is_digit (pad2 n)"
    using digit_char_props(1) [OF a(1)] digit_char_props(1) [OF a(2)] by (simp add: pad2_def)
  have "nat n div 10 < 10" using assms by simp
  then have "nat n div 10 mod 10 * 10 + nat n mod 10 = nat n" by simp
  then show "int (digits_val (pad2 n)) = n"
    using assms(1) digit_char_props(2) [OF a(1)] digit_char_props(2) [OF a(2)]
    by (simp add: pad2_def digits_val_def)
qed

lemma pad4_parse:
  assumes "0 \<le> n" and "n < 10000"
  shows "list_all is_digit (pad4 n)" and "int (digits_val (pad4 n)) = n"
proof -
  have a: "nat n div 1000 mod 10 < 10" "nat n div 100 mod 10 < 10" "nat n div 10 mod 10 < 10"
    "nat n mod 10 < 10" by simp_all
  show "list_all is_digit (pad4 n)"
    using a [THEN digit_char_props(1)] by (simp add: pad4_def)
  have t: "nat n div 1000 < 10" using assms by simp
  have 1: "nat n div 10 mod 10 * 10 + nat n mod 10 = nat n mod 100"
    by (simp add: mod_mult2_eq [of "nat n" 10 10, simplified])
  have 2: "nat n div 100 mod 10 * 100 + nat n mod 100 = nat n mod 1000"
    using mod_mult2_eq [of "nat n" 100 10] by simp
  have 3: "nat n div 1000 mod 10 * 1000 + nat n mod 1000 = nat n"
    using t by simp
  have "((nat n div 1000 mod 10 * 10 + nat n div 100 mod 10) * 10 + nat n div 10 mod 10) * 10
      + nat n mod 10 = nat n"
    using 1 2 3 by simp
  then show "int (digits_val (pad4 n)) = n"
    using assms(1) a [THEN digit_char_props(2)] by (simp add: pad4_def digits_val_def)
qed

lemma parseUint_pad2:
  "0 \<le> n \<Longrightarrow> n < 100 \<Longrightarrow> lo \<le> n \<Longrightarrow> n \<le> hi \<Longrightarrow> parseUint (pad2 n) lo hi = Some n"
  by (simp add: parseUint_def pad2_parse)

lemma parseUint_pad4:
  "0 \<le> n \<Longrightarrow> n < 10000 \<Longrightarrow> lo \<le> n \<Longrightarrow> n \<le> hi \<Longrightarrow> parseUint (pad4 n) lo hi = Some n"
  by (simp add: parseUint_def pad4_parse)

lemma pad2_shape: "\<exists>a b. pad2 n = [a, b]"
  by (simp add: pad2_def)

lemma pad4_shape: "\<exists>a b c d. pad4 n = [a, b, c, d]"
  by (simp add: pad4_def)

lemma seconds_of_day:
  fixes secs :: int
  assumes "0 \<le> secs" and "secs < 86400"
  shows "0 \<le> secs div 3600 \<and> secs div 3600 < 24"
    and "0 \<le> secs mod 3600 div 60 \<and> secs mod 3600 div 60 < 60"
    and "0 \<le> secs mod 60 \<and> secs mod 60 < 60"
    and "secs div 3600 * 3600 + secs mod 3600 div 60 * 60 + secs mod 60 = secs"
proof -
  have "secs div 3600 \<le> 86399 div 3600" using assms(2) by (intro zdiv_mono1) simp_all
  then show "0 \<le> secs div 3600 \<and> secs div 3600 < 24"
    using assms(1) by (simp add: pos_imp_zdiv_nonneg_iff)
  have m: "0 \<le> secs mod 3600" "secs mod 3600 < 3600" by simp_all
  have "secs mod 3600 div 60 \<le> 3599 div 60" using m(2) by (intro zdiv_mono1) simp_all
  then show "0 \<le> secs mod 3600 div 60 \<and> secs mod 3600 div 60 < 60"
    using m(1) by (simp add: pos_imp_zdiv_nonneg_iff)
  show "0 \<le> secs mod 60 \<and> secs mod 60 < 60" by simp
  have 1: "secs mod 3600 mod 60 = secs mod 60"
    by (simp add: mod_mod_cancel)
  have 2: "secs mod 3600 div 60 * 60 + secs mod 3600 mod 60 = secs mod 3600"
    by simp
  have 3: "secs div 3600 * 3600 + secs mod 3600 = secs" by simp
  show "secs div 3600 * 3600 + secs mod 3600 div 60 * 60 + secs mod 60 = secs"
    using 1 2 3 by linarith
qed

lemma civil_fields:
  assumes "civil t = (year, month, day, hour, minute, sec)"
  shows "1 \<le> month \<and> month \<le> 12"
    and "1 \<le> day \<and> day \<le> 31 \<and> day \<le> daysIn month year"
    and "0 \<le> hour \<and> hour < 24" and "0 \<le> minute \<and> minute < 60" and "0 \<le> sec \<and> sec < 60"
    and "(days_from_civil year month day - unix_epoch_days) * 86400
           + hour * 3600 + minute * 60 + sec = unix t + offset t"
proof -
  define loc where "loc = unix t + offset t"
  define secs where "secs = loc mod 86400"
  obtain yd where yy: "year_yday (loc div 86400 + unix_epoch_days) = (year, yd)"
    and md: "month_day (isLeap year) yd = (month, day)"
    and hms: "hour = secs div 3600" "minute = secs mod 3600 div 60" "sec = secs mod 60"
    using assms unfolding civil_def Let_def loc_def secs_def
    by (auto split: prod.splits)
  note y = year_yday_sound [OF yy]
  note m = month_day_sound [OF y(2,3) md]
  have s: "0 \<le> secs" "secs < 86400" by (simp_all add: secs_def)
  note sd = seconds_of_day [OF s]
  show "1 \<le> month \<and> month \<le> 12" using m by simp
  show "1 \<le> day \<and> day \<le> 31 \<and> day \<le> daysIn month year" using m by (simp add: daysIn_def)
  show "0 \<le> hour \<and> hour < 24" "0 \<le> minute \<and> minute < 60" "0 \<le> sec \<and> sec < 60"
    using sd hms by simp_all
  have "days_from_civil year month day = loc div 86400 + unix_epoch_days"
    using y(1) m by (simp add: days_from_civil_def)
  moreover have "loc div 86400 * 86400 + secs = loc" by (simp add: secs_def)
  ultimately show "(days_from_civil year month day - unix_epoch_days) * 86400
           + hour * 3600 + minute * 60 + sec = unix t + offset t"
    using sd(4) hms by (simp add: loc_def)
qed

lemma time_Date_in_range:
  assumes "1 \<le> month" and "month \<le> 12"
  shows "unix (time_Date year month day hour minute sec)
     = (days_from_civil year month day - unix_epoch_days) * 86400 + hour * 3600 + minute * 60 + sec"
proof -
  have "(month - 1) div 12 = 0" "(month - 1) mod 12 = month - 1"
    using assms by (simp_all add: div_pos_pos_trivial)
  then show ?thesis by (simp add: time_Date_def Let_def)
qed

lemma parseRFC3339_fields:
  assumes "0 \<le> year" "year < 10000" "1 \<le> month" "month \<le> 12" "1 \<le> day" "day \<le> 31"
    "day \<le> daysIn month year" "0 \<le> hour" "hour < 24" "0 \<le> minute" "minute < 60"
    "0 \<le> sec" "sec < 60"
  shows "parseRFC3339 (pad4 year @ ''-'' @ pad2 month @ ''-'' @ pad2 day @ ''T''
           @ pad2 hour @ '':'' @ pad2 minute @ '':'' @ pad2 sec @ ''Z'')
     = Some \<lparr>unix = unix (time_Date year month day hour minute sec), nsec = 0, offset = 0\<rparr>"
proof -
  obtain y1 y2 y3 y4 where y: "pad4 year = [y1, y2, y3, y4]" using pad4_shape by blast
  obtain m1 m2 where m: "pad2 month = [m1, m2]" using pad2_shape by blast
  obtain d1 d2 where d: "pad2 day = [d1, d2]" using pad2_shape by blast
  obtain h1 h2 where h: "pad2 hour = [h1, h2]" using pad2_shape by blast
  obtain i1 i2 where i: "pad2 minute = [i1, i2]" using pad2_shape by blast
  obtain s1 s2 where s: "pad2 sec = [s1, s2]" using pad2_shape by blast
  have py: "parseUint [y1, y2, y3, y4] 0 9999 = Some year"
    using parseUint_pad4 [of year 0 9999] assms y by simp
  have pm: "parseUint [m1, m2] 1 12 = Some month"
    using parseUint_pad2 [of month 1 12] assms m by simp
  have pd: "parseUint [d1, d2] 1 (daysIn month year) = Some day"
    using parseUint_pad2 [of day 1 "daysIn month year"] assms d by simp
  have ph: "parseUint [h1, h2] 0 23 = Some hour"
    using parseUint_pad2 [of hour 0 23] assms h by simp
  have pi: "parseUint [i1, i2] 0 59 = Some minute"
    using parseUint_pad2 [of minute 0 59] assms i by simp
  have ps: "parseUint [s1, s2] 0 59 = Some sec"
    using parseUint_pad2 [of sec 0 59] assms s by simp
  have pf: "parse_fraction ''Z'' = (0, ''Z'')" by (simp add: parse_fraction_def)
  have pz: "parse_zone ''Z'' = Some 0" by (simp add: parse_zone_def)
  show ?thesis
    unfolding y m d h i s
    by (simp add: parseRFC3339_def py pm pd ph pi ps pf pz)
qed

lemma parse_format_roundtrip:
  assumes "format_RFC3339 t = Some text" and "nsec t = 0" and "offset t = 0"
  shows "parseRFC3339 text = Some t"
proof -
  obtain year month day hour minute sec where c: "civil t = (year, month, day, hour, minute, sec)"
    by (cases "civil t") auto
  note f = civil_fields [OF c]
  have yr: "0 \<le> year" "year < 10000"
    using assms(1) c by (auto simp: format_RFC3339_def split: if_splits)
  have shape: "text = pad4 year @ ''-'' @ pad2 month @ ''-'' @ pad2 day @ ''T''
           @ pad2 hour @ '':'' @ pad2 minute @ '':'' @ pad2 sec @ ''Z''"
    using assms c yr by (simp add: format_RFC3339_def format_zone_def)
  have "unix (time_Date year month day hour minute sec) = unix t"
    using f(1,6) assms(3) by (simp add: time_Date_in_range)
  then have "\<lparr>unix = unix (time_Date year month day hour minute sec), nsec = 0, offset = 0\<rparr> = t"
    using assms(2,3) by simp
  then show ?thesis
    unfolding shape using parseRFC3339_fields [of year month day hour minute sec] yr f by simp
qed

lemma show_nat_digits: "list_all is_digit (show_nat n)"
proof (induction n rule: show_nat.induct)
  case (1 n)
  show ?case
  proof (cases "n < 10")
    case True
    then show ?thesis by (subst show_nat.simps) (simp add: digit_char_props)
  next
    case False
    have "n mod 10 < 10" by simp
    then have "is_digit (digit_char (n mod 10))" by (rule digit_char_props)
    with 1 False show ?thesis by (subst show_nat.simps) simp
  qed
qed

lemma show_nat_value: "digits_val (show_nat n) = n"
proof (induction n rule: show_nat.induct)
  case (1 n)
  show ?case
  proof (cases "n < 10")
    case True
    then show ?thesis
      by (subst show_nat.simps) (simp add: digits_val_def digit_char_props)
  next
    case False
    have "n mod 10 < 10" by simp
    then have "digit_val (digit_char (n mod 10)) = n mod 10" by (rule digit_char_props)
    with 1 False show ?thesis
      by (subst show_nat.simps) (simp add: digits_val_snoc)
  qed
qed

lemma show_nat_head:
  "\<exists>c cs. show_nat n = c # cs \<and> is_digit c \<and> (c = CHR ''0'' \<longrightarrow> cs = [])"
proof (induction n rule: show_nat.induct)
  case (1 n)
  show ?case
  proof (cases "n < 10")
    case True
    then show ?thesis
      by (subst show_nat.simps) (simp add: digit_char_props)
  next
    case False
    then have z: "0 < n div 10" by simp
    from 1 False obtain c cs where h: "show_nat (n div 10) = c # cs" "is_digit c"
      "c = CHR ''0'' \<longrightarrow> cs = []" by auto
    have "c \<noteq> CHR ''0''"
    proof
      assume c: "c = CHR ''0''"
      with h have "show_nat (n div 10) = ''0''" by simp
      then have "digits_val (show_nat (n div 10)) = 0" by (simp add: digits_val_def digit_val_def)
      with z show False by (simp add: show_nat_value)
    qed
    with h False show ?thesis
      by (subst show_nat.simps) simp
  qed
qed

lemma takeWhile_digits_append:
  "list_all is_digit ds \<Longrightarrow> \<not> is_digit c \<Longrightarrow> takeWhile is_digit (ds @ c # rest) = ds"
  by (induction ds) auto

lemma dropWhile_digits_append:
  "list_all is_digit ds \<Longrightarrow> \<not> is_digit c \<Longrightarrow> dropWhile is_digit (ds @ c # rest) = c # rest"
  by (induction ds) auto

lemma scan_number_nat:
  "scan_number (show_nat n @ CHR '','' # rest) = Parsed (show_nat n) (CHR '','' # rest)"
proof -
  obtain c cs where h: "show_nat n = c # cs" "is_digit c" "c = CHR ''0'' \<longrightarrow> cs = []"
    using show_nat_head by blast
  have ds: "list_all is_digit cs" using show_nat_digits [of n] h by simp
  have nc: "\<not> is_digit (CHR '','')" by (simp add: is_digit_def)
  have cm: "c \<noteq> CHR ''-''" using h(2) by (auto simp: is_digit_def)
  have fr: "\<And>acc. scan_frac acc (CHR '','' # rest) = Parsed acc (CHR '','' # rest)"
    by (simp add: scan_frac_def scan_exp_def)
  show ?thesis
    using h cm fr
    by (simp add: scan_number_def Let_def takeWhile_digits_append [OF ds nc]
        dropWhile_digits_append [OF ds nc])
qed

lemma scan_number_int:
  "scan_number (show_int i @ CHR '','' # rest) = Parsed (show_int i) (CHR '','' # rest)"
proof (cases "i < 0")
  case False
  then show ?thesis by (simp add: show_int_def scan_number_nat)
next
  case True
  obtain c cs where h: "show_nat (nat (- i)) = c # cs" "is_digit c" "c = CHR ''0'' \<longrightarrow> cs = []"
    using show_nat_head by blast
  have ds: "list_all is_digit cs" using show_nat_digits [of "nat (- i)"] h by simp
  have nc: "\<not> is_digit (CHR '','')" by (simp add: is_digit_def)
  have fr: "\<And>acc. scan_frac acc (CHR '','' # rest) = Parsed acc (CHR '','' # rest)"
    by (simp add: scan_frac_def scan_exp_def)
  show ?thesis
    using True h fr
    by (simp add: show_int_def scan_number_def Let_def takeWhile_digits_append [OF ds nc]
        dropWhile_digits_append [OF ds nc])
qed

lemma show_int_head:
  "\<exists>c cs. show_int i = c # cs \<and> (c = CHR ''-'' \<or> is_digit c) \<and> \<not> is_space c"
proof -
  obtain c cs where h: "show_nat (nat \<bar>i\<bar>) = c # cs" "is_digit c"
    using show_nat_head by blast
  have "\<not> is_space c" using h(2) by (auto simp: is_digit_def is_space_def)
  moreover have "\<not> is_space (CHR ''-'')" by (simp add: is_space_def)
  ultimately show ?thesis
    using h by (cases "i < 0") (auto simp: show_int_def abs_if)
qed

lemma parse_int64_digits:
  assumes "ds \<noteq> []" and "list_all is_digit ds" and "int (digits_val ds) < 2 ^ 63"
  shows "parse_int64 ds = Some (word_of_int (int (digits_val ds)))"
proof -
  obtain c cs where ds: "ds = c # cs" using assms(1) by (cases ds) auto
  have "is_digit c" using assms(2) ds by simp
  then have cm: "c \<noteq> CHR ''-''" by (auto simp: is_digit_def)
  have "- (2 ^ 63) \<le> int (digits_val ds)" by simp
  then show ?thesis
    using assms cm unfolding parse_int64_def Let_def ds by simp
qed

lemma parse_int64_neg:
  assumes "ds \<noteq> []" and "list_all is_digit ds" and "int (digits_val ds) \<le> 2 ^ 63"
  shows "parse_int64 (CHR ''-'' # ds) = Some (word_of_int (- int (digits_val ds)))"
proof -
  have "- int (digits_val ds) \<le> 0" by simp
  moreover have "(0::int) < 2 ^ 63" by simp
  ultimately have "- int (digits_val ds) < 2 ^ 63" by (rule le_less_trans)
  then show ?thesis
    using assms unfolding parse_int64_def Let_def by simp
qed

lemma show_nat_nonempty: "show_nat n \<noteq> []"
  using show_nat_head [of n] by auto

lemma parse_int64_show_int: "parse_int64 (show_int (sint w)) = Some (w :: 64 word)"
proof -
  have r: "- (2 ^ 63) \<le> sint w" "sint w < 2 ^ 63"
    using sint_range_size [of w] by (simp_all add: word_size)
  show ?thesis
  proof (cases "sint w < 0")
    case True
    have v: "int (digits_val (show_nat (nat (- sint w)))) = - sint w"
      using True by (simp add: show_nat_value)
    have "parse_int64 (CHR ''-'' # show_nat (nat (- sint w)))
        = Some (word_of_int (- int (digits_val (show_nat (nat (- sint w))))))"
      using r(1) by (intro parse_int64_neg show_nat_nonempty show_nat_digits) (simp add: v)
    then show ?thesis using True by (simp add: show_int_def v)
  next
    case False
    have v: "int (digits_val (show_nat (nat (sint w)))) = sint w"
      using False by (simp add: show_nat_value)
    have "parse_int64 (show_nat (nat (sint w)))
        = Some (word_of_int (int (digits_val (show_nat (nat (sint w))))))"
      using r(2) by (intro parse_int64_digits show_nat_nonempty show_nat_digits) (simp add: v)
    then show ?thesis using False by (simp add: show_int_def v)
  qed
qed

lemma scan_string_safe:
  assumes "list_all (\<lambda>c. c \<noteq> CHR 0x22 \<and> c \<noteq> CHR 0x5C \<and> 32 \<le> (of_char c :: nat)) s"
  shows "scan_string (s @ CHR 0x22 # rest) = Parsed s rest"
  using assms by (induction s) auto

lemma digit_safe:
  "is_digit c \<Longrightarrow> c \<noteq> CHR 0x22 \<and> c \<noteq> CHR 0x5C \<and> 32 \<le> (of_char c :: nat)"
  by (auto simp: is_digit_def)

lemma pad2_safe:
  "list_all (\<lambda>c. c \<noteq> CHR 0x22 \<and> c \<noteq> CHR 0x5C \<and> 32 \<le> (of_char c :: nat)) (pad2 n)"
proof -
  have a: "nat n div 10 mod 10 < 10" "nat n mod 10 < 10" by simp_all
  show ?thesis
    using a [THEN digit_char_props(1), THEN digit_safe] by (simp add: pad2_def)
qed

lemma pad4_safe:
  "list_all (\<lambda>c. c \<noteq> CHR 0x22 \<and> c \<noteq> CHR 0x5C \<and> 32 \<le> (of_char c :: nat)) (pad4 n)"
proof -
  have a: "nat n div 1000 mod 10 < 10" "nat n div 100 mod 10 < 10" "nat n div 10 mod 10 < 10"
    "nat n mod 10 < 10" by simp_all
  show ?thesis
    using a [THEN digit_char_props(1), THEN digit_safe] by (simp add: pad4_def)
qed

lemma format_utc_safe:
  assumes "format_RFC3339 t = Some text" and "nsec t = 0" and "offset t = 0"
  shows "list_all (\<lambda>c. c \<noteq> CHR 0x22 \<and> c \<noteq> CHR 0x5C \<and> 32 \<le> (of_char c :: nat)) text"
proof -
  obtain year month day hour minute sec where c: "civil t = (year, month, day, hour, minute, sec)"
    by (cases "civil t") auto
  have "text = pad4 year @ ''-'' @ pad2 month @ ''-'' @ pad2 day @ ''T''
           @ pad2 hour @ '':'' @ pad2 minute @ '':'' @ pad2 sec @ ''Z''"
    using assms c by (simp add: format_RFC3339_def format_zone_def split: if_splits)
  then show ?thesis by (simp add: pad2_safe pad4_safe)
qed

lemma key_count: "key_matches ''count'' ''count''" and key_date: "key_matches ''date'' ''date''"
  and key_count_date: "\<not> key_matches ''count'' ''date''"
  by code_simp+

lemma scan_count_key: "scan_string (''count'' @ CHR 0x22 # rest) = Parsed ''count'' rest"
  by (rule scan_string_safe) simp

lemma scan_date_key: "scan_string (''date'' @ CHR 0x22 # rest) = Parsed ''date'' rest"
  by (rule scan_string_safe) simp

lemma skip_space_nonspace: "\<not> is_space c \<Longrightarrow> skip_space (c # cs) = c # cs"
  by (simp add: skip_space_def)

lemma parse_digest_text:
  assumes "list_all (\<lambda>c. c \<noteq> CHR 0x22 \<and> c \<noteq> CHR 0x5C \<and> 32 \<le> (of_char c :: nat)) ts"
  shows "parse_value (Suc (Suc (Suc (Suc k))))
       (''{\"count\":'' @ show_int i @ '',\"date\":'' @ ([CHR 0x22] @ ts @ [CHR 0x22]) @ ''}'' @ rest)
     = Parsed (JObject [(''count'', JNumber (show_int i)), (''date'', JString ts)]) rest"
proof -
  obtain c cs where h: "show_int i = c # cs" "c = CHR ''-'' \<or> is_digit c" "\<not> is_space c"
    using show_int_head by blast
  have sp: "\<not> is_space (CHR ''{'')" "\<not> is_space (CHR 0x22)" "\<not> is_space (CHR '':'')"
    "\<not> is_space (CHR '','')" "\<not> is_space (CHR ''}'')"
    by (simp_all add: is_space_def)
  have starts: "c \<noteq> CHR ''{''" "c \<noteq> CHR ''[''" "c \<noteq> CHR 0x22"
    using h(2) by (auto simp: is_digit_def)
  define r2 where "r2 = ''\"date\":'' @ CHR 0x22 # ts @ CHR 0x22 # ''}'' @ rest"
  have num: "scan_number (c # cs @ CHR '','' # r2) = Parsed (c # cs) (CHR '','' # r2)"
    using scan_number_int [of i r2] h(1) by simp
  have v1: "parse_value (Suc n) (c # cs @ CHR '','' # r2) = Parsed (JNumber (c # cs)) (CHR '','' # r2)"
    for n
    using h(2,3) starts num by (simp add: skip_space_nonspace)
  have str: "scan_string (ts @ CHR 0x22 # CHR ''}'' # rest) = Parsed ts (CHR ''}'' # rest)"
    using assms by (rule scan_string_safe)
  have v2: "parse_value (Suc n) (CHR 0x22 # ts @ CHR 0x22 # CHR ''}'' # rest)
      = Parsed (JString ts) (CHR ''}'' # rest)" for n
    using str sp by (simp add: skip_space_nonspace)
  have m2: "parse_members (Suc (Suc n)) [(''count'', JNumber (c # cs))] r2
      = Parsed (JObject [(''count'', JNumber (c # cs)), (''date'', JString ts)]) rest" for n
    unfolding r2_def
    using scan_date_key [of "'':'' @ CHR 0x22 # ts @ CHR 0x22 # ''}'' @ rest"] sp
    by (simp add: skip_space_nonspace v2 del: parse_value.simps)
  have m1: "parse_members (Suc (Suc (Suc n))) [] (''\"count\":'' @ c # cs @ CHR '','' # r2)
      = Parsed (JObject [(''count'', JNumber (c # cs)), (''date'', JString ts)]) rest" for n
    using scan_count_key [of "'':'' @ c # cs @ CHR '','' # r2"] sp
    apply (subst parse_members.simps)
    apply (simp add: skip_space_nonspace v1 m2 del: parse_value.simps parse_members.simps)
    done
  have "parse_value (Suc (Suc (Suc (Suc k)))) (CHR ''{'' # ''\"count\":'' @ c # cs @ CHR '','' # r2)
     = Parsed (JObject [(''count'', JNumber (c # cs)), (''date'', JString ts)]) rest"
    using sp m1 [of k]
    apply (subst parse_value.simps)
    apply (simp add: skip_space_nonspace del: parse_value.simps parse_members.simps)
    done
  then show ?thesis
    using h(1) unfolding r2_def by simp
qed

lemma Decode_Encode_Digest:
  assumes "Encode_Digest d = Inr bytes" and "nsec (Date d) = 0" and "offset (Date d) = 0"
  shows "Decode_Digest bytes Digest_zero = (d, None)"
proof -
  obtain ts where f: "format_RFC3339 (Date d) = Some ts"
    using assms(1)
    by (auto simp: Encode_Digest_def marshal_Digest_def time_MarshalJSON_def
        split: sum.splits option.splits)
  have bytes: "bytes = ''{\"count\":'' @ show_int (sint (Count d)) @ '',\"date\":''
      @ ([CHR 0x22] @ ts @ [CHR 0x22]) @ ''}'' @ [nl]"
    using assms(1) f by (simp add: Encode_Digest_def marshal_Digest_def time_MarshalJSON_def)
  have safe: "list_all (\<lambda>c. c \<noteq> CHR 0x22 \<and> c \<noteq> CHR 0x5C \<and> 32 \<le> (of_char c :: nat)) ts"
    using f assms(2,3) by (rule format_utc_safe)
  have "bytes \<noteq> []" unfolding bytes by simp
  then have k: "2 * length bytes + 2 = Suc (Suc (Suc (Suc (2 * (length bytes - 1)))))"
    by (cases bytes) simp_all
  have scan: "json_scan bytes
      = Parsed (JObject [(''count'', JNumber (show_int (sint (Count d)))), (''date'', JString ts)]) [nl]"
    unfolding json_scan_def k unfolding bytes by (rule parse_digest_text [OF safe])
  have ne: "skip_space bytes \<noteq> []"
    unfolding bytes by (simp add: skip_space_def is_space_def)
  have rv: "decoder_readValue bytes
      = Inr (JObject [(''count'', JNumber (show_int (sint (Count d)))), (''date'', JString ts)], [nl])"
    using scan ne by (simp add: decoder_readValue_def)
  have "parseRFC3339 ts = Some (Date d)"
    using f assms(2,3) by (rule parse_format_roundtrip)
  then have t: "parseStrictRFC3339 ts = Some (Date d)"
    by (simp add: parseStrictRFC3339_def)
  have "unmarshal_Digest (JObject [(''count'', JNumber (show_int (sint (Count d)))), (''date'', JString ts)])
      Digest_zero = (d, None)"
    by (simp add: unmarshal_Digest_def key_count key_date key_count_date parse_int64_show_int t
        Digest_zero_def)
  then show ?thesis using rv by (simp add: Decode_Digest_def)
qed

lemma doDigestFile_success:
  assumes "doDigestFile e path digestFile fs users = (Return (Some d, None), fs1, users1)"
  shows "\<exists>bytes. Encode_Digest d = Inr bytes \<and> fs1 = write_append fs digestFile bytes
    \<and> nsec (Date d) = 0 \<and> offset (Date d) = 0"
proof (cases "os_Open fs path")
  case (Inl err)
  with assms show ?thesis by (simp add: doDigestFile_def)
next
  case f: (Inr f)
  show ?thesis
  proof (cases "gzip_NewReader e f")
    case (Inl err)
    with assms f show ?thesis by (simp add: doDigestFile_def)
  next
    case r: (Inr reader)
    obtain c cerr where lc: "lineCounter reader = (c, cerr)"
      by (cases "lineCounter reader")
    obtain uerr users' where ue:
      "usernameExtractor (unicode_ToLower e) (fst (stream reader)) users = (uerr, users')"
      by (cases "usernameExtractor (unicode_ToLower e) (fst (stream reader)) users")
    show ?thesis
    proof (cases cerr)
      case (Some err)
      with assms f r lc show ?thesis by (simp add: doDigestFile_def)
    next
      case cn: None
      show ?thesis
      proof (cases uerr)
        case (Some err)
        with assms f r lc ue cn show ?thesis by (simp add: doDigestFile_def)
      next
        case un: None
        show ?thesis
        proof (cases "length (FindStringSubmatch (filepath_Base path)) \<le> 4")
          case True
          with assms f r lc ue cn un show ?thesis by (simp add: doDigestFile_def Let_def)
        next
          case False
          define dg where "dg = \<lparr>Count = c, Date = time_Date
            (fst (strconv_Atoi (FindStringSubmatch (filepath_Base path) ! 1)))
            (fst (strconv_Atoi (FindStringSubmatch (filepath_Base path) ! 2)))
            (fst (strconv_Atoi (FindStringSubmatch (filepath_Base path) ! 3)))
            (fst (strconv_Atoi (FindStringSubmatch (filepath_Base path) ! 4))) 0 0\<rparr>"
          have z: "nsec (Date dg) = 0" "offset (Date dg) = 0"
            by (simp_all add: dg_def time_Date_def Let_def)
          have res: "doDigestFile e path digestFile fs users =
             (case Encode_Digest dg of
                Inl err \<Rightarrow> (Return (Some dg, Some err), fs, users')
              | Inr bytes \<Rightarrow> (Return (Some dg, None), write_append fs digestFile bytes, users'))"
            unfolding doDigestFile_def dg_def Let_def
            using f r lc ue cn un False by simp
          show ?thesis
          proof (cases "Encode_Digest dg")
            case (Inl err)
            with assms res show ?thesis by simp
          next
            case (Inr bytes)
            with assms res have "d = dg" "fs1 = write_append fs digestFile bytes" by simp_all
            with Inr z show ?thesis by simp
          qed
        qed
      qed
    qed
  qed
qed

lemma readDigest_written:
  assumes "files fs p = Some bytes" and "p \<notin> denied fs" and "Encode_Digest d = Inr bytes"
    and "nsec (Date d) = 0" and "offset (Date d) = 0"
  shows "readDigest fs p = (Some d, None)"
  using assms(1,2) Decode_Encode_Digest [OF assms(3-5)]
  by (simp add: readDigest_def os_Open_def)

lemma div_step:
  fixes y k :: int
  assumes "0 < k"
  shows "y div k - (y - 1) div k = (if y mod k = 0 then 1 else 0)"
proof (cases "y mod k = 0")
  case True
  have e: "y - 1 = (k - 1) + (y div k - 1) * k"
    using True div_mult_mod_eq [of y k] by (simp add: algebra_simps)
  have "(y - 1) div k = (y div k - 1) + (k - 1) div k"
    unfolding e using assms by (intro div_mult_self1) simp
  moreover have "(k - 1) div k = 0" using assms by (simp add: div_pos_pos_trivial)
  ultimately show ?thesis using True by simp
next
  case False
  have m: "0 \<le> y mod k" "y mod k < k" using assms by simp_all
  have e: "y - 1 = (y mod k - 1) + (y div k) * k"
    using div_mult_mod_eq [of y k] by (simp add: algebra_simps)
  have "(y - 1) div k = y div k + (y mod k - 1) div k"
    by (subst e, rule div_mult_self1) (use assms in simp)
  moreover have "(y mod k - 1) div k = 0" using m False by (simp add: div_pos_pos_trivial)
  ultimately show ?thesis using False by simp
qed

lemma days_before_year_succ:
  "days_before_year (y + 1) = days_before_year y + (if isLeap y then 366 else 365)"
proof -
  have 4: "(y - 1) div 4 = y div 4 - (if y mod 4 = 0 then 1 else 0)"
    using div_step [of 4 y] by simp
  have 100: "(y - 1) div 100 = y div 100 - (if y mod 100 = 0 then 1 else 0)"
    using div_step [of 100 y] by simp
  have 400: "(y - 1) div 400 = y div 400 - (if y mod 400 = 0 then 1 else 0)"
    using div_step [of 400 y] by simp
  have a: "y mod 100 = 0 \<Longrightarrow> y mod 4 = 0"
    using mod_mod_cancel [of 4 100 y] by simp
  have b: "y mod 400 = 0 \<Longrightarrow> y mod 100 = 0"
    using mod_mod_cancel [of 100 400 y] by simp
  show ?thesis
  proof (cases "y mod 4 = 0")
    case False
    with a b have "y mod 100 \<noteq> 0" "y mod 400 \<noteq> 0" by auto
    with False show ?thesis by (simp add: days_before_year_def isLeap_def 4 100 400)
  next
    case t4: True
    show ?thesis
    proof (cases "y mod 100 = 0")
      case False
      with b have "y mod 400 \<noteq> 0" by auto
      with t4 False show ?thesis by (simp add: days_before_year_def isLeap_def 4 100 400)
    next
      case t100: True
      show ?thesis
        using t4 t100 by (cases "y mod 400 = 0") (simp_all add: days_before_year_def isLeap_def 4 100 400)
    qed
  qed
qed

lemma days_before_year_mono: "a \<le> b \<Longrightarrow> days_before_year a \<le> days_before_year b"
proof (induction b rule: int_ge_induct)
  case base
  then show ?case by simp
next
  case (step i)
  have "days_before_year i \<le> days_before_year (i + 1)"
    by (simp add: days_before_year_succ)
  with step show ?case by simp
qed

lemma year_of_days:
  assumes "days_before_year y \<le> n" and "n < days_before_year (y + 1)"
  shows "fst (year_yday n) = y"
proof -
  obtain y' yd where c: "year_yday n = (y', yd)" by (cases "year_yday n")
  note s = year_yday_sound [OF c]
  have u: "n < days_before_year (y' + 1)"
    using s by (simp add: days_before_year_succ split: if_splits)
  have l: "days_before_year y' \<le> n" using s by simp
  have "\<not> y' < y"
  proof
    assume "y' < y"
    then have "days_before_year (y' + 1) \<le> days_before_year y"
      by (intro days_before_year_mono) simp
    with u assms(1) show False by simp
  qed
  moreover have "\<not> y < y'"
  proof
    assume "y < y'"
    then have "days_before_year (y + 1) \<le> days_before_year y'"
      by (intro days_before_year_mono) simp
    with l assms(2) show False by simp
  qed
  ultimately show ?thesis using c by simp
qed

lemma day_in_year:
  assumes "1 \<le> month" "month \<le> 12" "1 \<le> day" "day \<le> daysIn month year"
  shows "days_before_year year \<le> days_from_civil year month day"
    and "days_from_civil year month day < days_before_year (year + 1)"
proof -
  have "month = 1 \<or> month = 2 \<or> month = 3 \<or> month = 4 \<or> month = 5 \<or> month = 6
    \<or> month = 7 \<or> month = 8 \<or> month = 9 \<or> month = 10 \<or> month = 11 \<or> month = 12"
    using assms(1,2) by arith
  then have "0 \<le> daysBefore (month - 1) + (if isLeap year \<and> 3 \<le> month then 1 else 0) + (day - 1)
     \<and> daysBefore (month - 1) + (if isLeap year \<and> 3 \<le> month then 1 else 0) + (day - 1)
        < (if isLeap year then 366 else 365)"
    using assms(3,4) by (elim disjE) (simp_all add: daysIn_def daysBefore_def split: if_splits)
  then show "days_before_year year \<le> days_from_civil year month day"
    and "days_from_civil year month day < days_before_year (year + 1)"
    by (simp_all add: days_from_civil_def days_before_year_succ)
qed

lemma civil_year:
  "fst (civil t) = fst (year_yday ((unix t + offset t) div 86400 + unix_epoch_days))"
  by (simp add: civil_def Let_def split: prod.splits)

lemma format_RFC3339_None:
  "format_RFC3339 t = None \<longleftrightarrow>
     fst (civil t) < 0 \<or> 10000 \<le> fst (civil t)
     \<or> (offset t \<noteq> 0 \<and> 24 \<le> \<bar>offset t\<bar> div 60 div 60)"
  by (auto simp: format_RFC3339_def split: prod.splits)

lemma parsed_time_encodable:
  assumes "0 \<le> year" "year \<le> 9999" "1 \<le> month" "month \<le> 12" "1 \<le> day"
    "day \<le> daysIn month year" "0 \<le> hour" "hour \<le> 23" "0 \<le> minute" "minute \<le> 59"
    "0 \<le> sec" "sec \<le> 59" "\<bar>off\<bar> < 86400"
  shows "format_RFC3339 \<lparr>unix = unix (time_Date year month day hour minute sec) - off,
      nsec = ns, offset = off\<rparr> \<noteq> None"
proof -
  define s where "s = hour * 3600 + minute * 60 + sec"
  define n where "n = days_from_civil year month day - unix_epoch_days"
  have s: "0 \<le> s" "s < 86400" using assms(7-12) by (simp_all add: s_def)
  have u: "unix (time_Date year month day hour minute sec) = s + n * 86400"
    using assms(3,4) by (simp add: time_Date_in_range s_def n_def)
  have "(s + n * 86400) div 86400 = n"
    using s by (simp add: div_pos_pos_trivial)
  then have d: "(s + n * 86400) div 86400 + unix_epoch_days = days_from_civil year month day"
    by (simp add: n_def)
  have "fst (year_yday (days_from_civil year month day)) = year"
    using day_in_year [OF assms(3-6)] by (intro year_of_days)
  then have "fst (civil \<lparr>unix = unix (time_Date year month day hour minute sec) - off,
      nsec = ns, offset = off\<rparr>) = year"
    using d by (simp add: civil_year u)
  moreover have "\<bar>off\<bar> div 60 div 60 < 24"
    using assms(13) by simp
  ultimately show ?thesis
    using assms(1,2) by (simp add: format_RFC3339_None)
qed

lemma parseUint_range: "parseUint s lo hi = Some v \<Longrightarrow> lo \<le> v \<and> v \<le> hi"
  by (auto simp: parseUint_def split: if_splits)

lemma parse_zone_range: "parse_zone s = Some off \<Longrightarrow> \<bar>off\<bar> < 86400"
proof -
  assume a: "parse_zone s = Some off"
  show ?thesis
  proof (cases "s = ''Z''")
    case True
    with a show ?thesis by (simp add: parse_zone_def)
  next
    case False
    with a obtain hr mm where "0 \<le> hr \<and> hr \<le> 23" "0 \<le> mm \<and> mm \<le> 59"
      "off = (hr * 60 + mm) * 60 \<or> off = - ((hr * 60 + mm) * 60)"
      unfolding parse_zone_def
      by (auto split: list.splits option.splits if_splits dest!: parseUint_range)
    then show ?thesis by auto
  qed
qed

text \<open>A time that the first parser of \<^verbatim>\<open>Time.UnmarshalJSON\<close> accepts can be encoded
  again. One that only the layout parser accepts need not be: its zone may be 24 hours
  from UTC.\<close>

lemma parseRFC3339_encodable:
  assumes "parseRFC3339 s = Some t"
  shows "format_RFC3339 t \<noteq> None"
proof -
  from assms obtain year month day hour minute sec ns off
    where "0 \<le> year \<and> year \<le> 9999" "1 \<le> month \<and> month \<le> 12"
      "1 \<le> day \<and> day \<le> daysIn month year" "0 \<le> hour \<and> hour \<le> 23"
      "0 \<le> minute \<and> minute \<le> 59" "0 \<le> sec \<and> sec \<le> 59" "\<bar>off\<bar> < 86400"
      "t = \<lparr>unix = unix (time_Date year month day hour minute sec) - off, nsec = ns, offset = off\<rparr>"
    unfolding parseRFC3339_def
    by (auto split: list.splits option.splits prod.splits if_splits
        dest!: parseUint_range parse_zone_range)
  then show ?thesis by (simp add: parsed_time_encodable)
qed

lemma readDigest_cases:
  "readDigest fs p = (None, Some ErrNotExist) \<or> readDigest fs p = (None, Some ErrPermission)
   \<or> (\<exists>content d err. readDigest fs p = (Some d, err) \<and> Decode_Digest content Digest_zero = (d, err))"
  by (auto simp: readDigest_def os_Open_def split: option.splits prod.splits)

lemma doDigestFile_digest_or_error:
  "fst (doDigestFile e path digestFile fs users) \<noteq> Return (None, None)"
proof (cases "os_Open fs path")
  case (Inl err)
  then show ?thesis by (simp add: doDigestFile_def)
next
  case f: (Inr f)
  show ?thesis
  proof (cases "gzip_NewReader e f")
    case (Inl err)
    with f show ?thesis by (simp add: doDigestFile_def)
  next
    case r: (Inr reader)
    obtain c cerr where lc: "lineCounter reader = (c, cerr)"
      by (cases "lineCounter reader")
    obtain uerr users' where ue:
      "usernameExtractor (unicode_ToLower e) (fst (stream reader)) users = (uerr, users')"
      by (cases "usernameExtractor (unicode_ToLower e) (fst (stream reader)) users")
    show ?thesis
    proof (cases cerr)
      case (Some err)
      with f r lc show ?thesis by (simp add: doDigestFile_def)
    next
      case cn: None
      show ?thesis
      proof (cases uerr)
        case (Some err)
        with f r lc ue cn show ?thesis by (simp add: doDigestFile_def)
      next
        case un: None
        show ?thesis
          using f r lc ue cn un
          by (simp add: doDigestFile_def Let_def split: sum.splits)
      qed
    qed
  qed
qed

lemma DigestFile_digest_or_error:
  "fst (DigestFile e path fs users) \<noteq> Return (None, None)"
proof (cases "files fs (path @ ''.digest.json'')")
  case (Some content)
  show ?thesis
    using readDigest_cases [of fs "path @ ''.digest.json''"]
    by (auto simp: DigestFile_hit [OF Some])
next
  case None
  show ?thesis
  proof (cases "path @ ''.digest.json'' \<in> denied fs")
    case True
    then show ?thesis by (simp add: DigestFile_denied [OF None])
  next
    case False
    then show ?thesis
      by (simp add: DigestFile_fresh [OF None] doDigestFile_digest_or_error)
  qed
qed







lemma parseStrictRFC3339_short_hour:
  "parseStrictRFC3339 ''2024-01-05T9:00:00Z'' = Some (time_Date 2024 1 5 9 0 0)"
  by code_simp


lemma Encode_Digest_encodable: "Encode_Digest d = Inr bytes \<Longrightarrow> encodable d"
  by (auto simp: encodable_def Encode_Digest_def split: sum.splits)

lemma own_artifact_written:
  assumes "Encode_Digest d = Inr bytes" and "nsec (Date d) = 0" and "offset (Date d) = 0"
  shows "own_artifact bytes"
  using Decode_Encode_Digest [OF assms] assms(1) by (simp add: own_artifact_def)

lemma DigestFile_own:
  assumes "DigestFile e f fs users = (Return (Some d, None), fs1, users1)"
    and "case files fs (f @ ''.digest.json'') of None \<Rightarrow> True | Some content \<Rightarrow> own_artifact content"
  shows "encodable d
    \<and> (\<forall>p. files fs1 p = files fs p \<or> (\<exists>c. files fs1 p = Some c \<and> own_artifact c))"
proof (cases "files fs (f @ ''.digest.json'')")
  case (Some content)
  have "(Return (readDigest fs (f @ ''.digest.json'')), fs, users)
      = (Return (Some d, None), fs1, users1)"
    unfolding DigestFile_hit [OF Some, of e users, symmetric] by (rule assms)
  then have r: "readDigest fs (f @ ''.digest.json'') = (Some d, None)" and fs1: "fs1 = fs"
    by auto
  have dec: "Decode_Digest content Digest_zero = (d, None)"
    using r Some by (auto simp: readDigest_def os_Open_def split: if_splits prod.splits)
  have "own_artifact content" using assms(2) Some by simp
  then have "Encode_Digest d = Inr content"
    using dec by (simp add: own_artifact_def)
  then have "encodable d" by (rule Encode_Digest_encodable)
  then show ?thesis using fs1 by simp
next
  case None
  show ?thesis
  proof (cases "f @ ''.digest.json'' \<in> denied fs")
    case True
    with assms(1) DigestFile_denied [OF None, of e users] show ?thesis by simp
  next
    case False
    let ?fs = "fs\<lparr>files := (files fs)(f @ ''.digest.json'' \<mapsto> [])\<rparr>"
    have "doDigestFile e f (f @ ''.digest.json'') ?fs users = (Return (Some d, None), fs1, users1)"
      using assms(1) DigestFile_fresh [OF None False, of e users] by simp
    then obtain bytes where b: "Encode_Digest d = Inr bytes"
        "fs1 = write_append ?fs (f @ ''.digest.json'') bytes"
        "nsec (Date d) = 0" "offset (Date d) = 0"
      using doDigestFile_success by blast
    have own: "own_artifact bytes" using b(1,3,4) by (rule own_artifact_written)
    have "files fs1 p = files fs p \<or> (\<exists>c. files fs1 p = Some c \<and> own_artifact c)" for p
      using own by (simp add: b(2) write_append_def)
    moreover have "encodable d" using b(1) by (rule Encode_Digest_encodable)
    ultimately show ?thesis by simp
  qed
qed

lemma own_artifacts_kept:
  assumes "\<forall>p. files fs1 p = files fs p \<or> (\<exists>c. files fs1 p = Some c \<and> own_artifact c)"
    and "own_artifacts fs eventFiles"
  shows "own_artifacts fs1 eventFiles"
  unfolding own_artifacts_def list_all_iff
proof
  fix f
  assume "f \<in> set eventFiles"
  then have o: "case files fs (f @ ''.digest.json'') of None \<Rightarrow> True | Some content \<Rightarrow> own_artifact content"
    using assms(2) by (simp add: own_artifacts_def list_all_iff)
  from assms(1) have "files fs1 (f @ ''.digest.json'') = files fs (f @ ''.digest.json'')
      \<or> (\<exists>c. files fs1 (f @ ''.digest.json'') = Some c \<and> own_artifact c)"
    by blast
  then show "case files fs1 (f @ ''.digest.json'') of None \<Rightarrow> True | Some content \<Rightarrow> own_artifact content"
    using o by auto
qed

text \<open>In a run that finds no cache artifacts but the program's own, every digest the loop
  of \<^verbatim>\<open>main\<close> collects can be encoded.\<close>

lemma main_loop_own_encodable:
  "list_all encodable acc \<Longrightarrow> own_artifacts fs eventFiles \<Longrightarrow>
   main_loop e eventFiles acc fs users = (Return digests, fs', users') \<Longrightarrow>
   list_all encodable digests"
proof (induction eventFiles arbitrary: acc fs users)
  case Nil
  then show ?case by simp
next
  case (Cons f eventFiles)
  obtain r fs1 users1 where df: "DigestFile e f fs users = (r, fs1, users1)"
    by (cases "DigestFile e f fs users")
  have o: "case files fs (f @ ''.digest.json'') of None \<Rightarrow> True | Some content \<Rightarrow> own_artifact content"
    and os: "own_artifacts fs eventFiles"
    using Cons.prems(2) by (simp_all add: own_artifacts_def)
  show ?case
  proof (cases r)
    case (Panic err)
    with Cons.prems(3) df show ?thesis by simp
  next
    case (Return p)
    obtain dg err where p: "p = (dg, err)" by (cases p)
    show ?thesis
    proof (cases err)
      case (Some er)
      with Cons.prems(3) df Return p show ?thesis by (cases dg) simp_all
    next
      case None
      show ?thesis
      proof (cases dg)
        case n: None
        with Cons.prems(3) df Return p None show ?thesis by simp
      next
        case (Some d)
        have d: "DigestFile e f fs users = (Return (Some d, None), fs1, users1)"
          using df Return p None Some by simp
        note own = DigestFile_own [OF d o]
        have a: "list_all encodable (acc @ [d])"
          using Cons.prems(1) own by simp
        have k: "own_artifacts fs1 eventFiles"
          using own os by (intro own_artifacts_kept [of fs1 fs]) simp_all
        have "main_loop e eventFiles (acc @ [d]) fs1 users1 = (Return digests, fs', users')"
          using Cons.prems(3) d by simp
        from Cons.IH [OF a k this] show ?thesis .
      qed
    qed
  qed
qed







subsection \<open>The claims\<close>

text \<open>
  C2, as the code has it. \<^verbatim>\<open>lineCounter\<close> counts newline bytes: for every reader that
  delivers its stream without a read error, whatever the sizes of the reads, it returns
  the number of newline bytes of the stream and no error. For a stream of \<open>N\<close> lines that
  is \<open>N\<close> when the last line is newline-terminated and \<open>N - 1\<close> when it is not; the end of
  the stream ends the counting without an error in both cases.
\<close>

theorem lineCounter_counts_newlines:
  assumes "stream r = (s, None)" and "\<forall>l\<in>set ls. nl \<notin> set l"
  shows "lineCounter r = (of_nat (bytes_Count s nl), None)
    \<and> (s = terminated_lines ls \<longrightarrow> lineCounter r = (of_nat (length ls), None))
    \<and> (ls \<noteq> [] \<and> s = unterminated_lines ls \<longrightarrow> lineCounter r = (of_nat (length ls - 1), None))"
proof -
  have c: "lineCounter r = (of_nat (bytes_Count s nl), None)"
    using lineCounter_loop_stream [OF assms(1), of 0] by (simp add: lineCounter_def)
  show ?thesis
    using c bytes_Count_terminated [OF assms(2)] bytes_Count_unterminated [OF assms(2)]
    by simp
qed

theorem lineCounter_counts_newlines_witness:
  "lineCounter [(''a'', None), ([nl], None), (''b'', Some EOF)] = (1, None)
   \<and> lineCounter [(''a'' @ [nl] @ ''b'' @ [nl], None)] = (2, None)"
proof -
  have ls: "\<forall>l\<in>set [''a'', ''b'']. nl \<notin> set l" by simp
  have s1: "stream [(''a'', None), ([nl], None), (''b'', Some EOF)] = (''a'' @ [nl] @ ''b'', None)"
    by simp
  have s2: "stream [(''a'' @ [nl] @ ''b'' @ [nl], None)] = (''a'' @ [nl] @ ''b'' @ [nl], None)"
    by simp
  show ?thesis
    using lineCounter_counts_newlines [OF s1 ls] lineCounter_counts_newlines [OF s2 ls]
    by (simp add: terminated_lines_def unterminated_lines_def bytes_Count_def)
qed

text \<open>
  C2 as stated fails: the two lines \<^verbatim>\<open>a\<close> and \<^verbatim>\<open>b\<close>, the last one not
  newline-terminated, are counted as one.
\<close>

theorem lineCounter_unterminated_counterexample:
  "lineCounter [(unterminated_lines [''a'', ''b''], Some EOF)] = (1, None)
   \<and> lineCounter [(unterminated_lines [''a'', ''b''], Some EOF)]
       \<noteq> (of_nat (length [''a'', ''b'']), None)"
  by (simp add: lineCounter_def unterminated_lines_def terminated_lines_def bytes_Count_def)

text \<open>
  C5. \<^verbatim>\<open>Difference\<close> returns exactly the members of the receiver that are absent from
  the argument; with the snapshot \<open>{alice, bob}\<close> and the live set
  \<open>{alice, carol, dave}\<close> after the run, the difference of the live set and the snapshot
  is exactly \<open>{carol, dave}\<close>.
\<close>

theorem Difference_exact:
  "(u \<in> Difference users other \<longleftrightarrow> u \<in> users \<and> u \<notin> other)
   \<and> Difference {''alice'', ''carol'', ''dave''} (Clone {''alice'', ''bob''}) = {''carol'', ''dave''}"
  by (auto simp: Difference_def Clone_def)

text \<open>
  C9. When the known-users file exists (and can be read), \<^verbatim>\<open>readKnownUsers\<close> returns
  exactly the set of the newline-separated segments of its content, each as it stands;
  so for every content that ends in a newline the empty username is in the set.
\<close>

theorem readKnownUsers_segments:
  assumes "files fs (makePath dir ''users.txt'') = Some usersBuf"
    and "makePath dir ''users.txt'' \<notin> denied fs"
  shows "readKnownUsers dir fs = set (strings_Split usersBuf nl)
    \<and> (usersBuf \<noteq> [] \<and> last usersBuf = nl \<longrightarrow> [] \<in> readKnownUsers dir fs)"
proof -
  have r: "readKnownUsers dir fs = set (strings_Split usersBuf nl)"
    using assms by (simp add: readKnownUsers_def os_Open_def fold_Add)
  show ?thesis
    using r strings_Split_last_sep [of usersBuf nl] by simp
qed

theorem readKnownUsers_segments_witness:
  "readKnownUsers ''/data'' \<lparr>files = [''/data/users.txt'' \<mapsto> ''Bob'' @ [nl] @ ''eve'' @ [nl]], denied = {}\<rparr>
     = {''Bob'', ''eve'', []}"
proof -
  have p: "makePath ''/data'' ''users.txt'' = ''/data/users.txt''"
    by (simp add: makePath_def filepath_Join_def filepath_Clean_def)
  have a: "files \<lparr>files = [''/data/users.txt'' \<mapsto> ''Bob'' @ [nl] @ ''eve'' @ [nl]], denied = {}\<rparr>
      (makePath ''/data'' ''users.txt'') = Some (''Bob'' @ [nl] @ ''eve'' @ [nl])"
    by (simp add: p)
  have b: "makePath ''/data'' ''users.txt''
      \<notin> denied \<lparr>files = [''/data/users.txt'' \<mapsto> ''Bob'' @ [nl] @ ''eve'' @ [nl]], denied = {}\<rparr>"
    by simp
  show ?thesis
    using readKnownUsers_segments [OF a b] by auto
qed

text \<open>
  C3. When the base name of the input file embeds the pattern, that is, it reads
  \<open>pre @ y-m-d-h @ post\<close> with four, two, two and one or two digits, as the leftmost and
  greedy match that \<^verbatim>\<open>FindStringSubmatch\<close> takes, the fresh-digest computation on a
  readable file returns a \<^verbatim>\<open>Digest\<close> whose date is
  \<^verbatim>\<open>time.Date(y, m, d, h, 0, 0, 0, time.UTC)\<close>. For \<^verbatim>\<open>2024-01-05-9.json.gz\<close> this is the
  time that is written \<^verbatim>\<open>2024-01-05T09:00:00Z\<close> (the witness).
\<close>

theorem doDigestFile_date_from_name:
  assumes "os_Open fs path = Inr f" and "gzip_NewReader e f = Inr reader"
    and "lineCounter reader = (c, None)"
    and "usernameExtractor (unicode_ToLower e) (fst (stream reader)) users = (None, users')"
    and "filepath_Base path = pre @ y @ ''-'' @ m @ ''-'' @ d @ ''-'' @ h @ post"
    and "length y = 4" "length m = 2" "length d = 2" "length h = 1 \<or> length h = 2"
    and "list_all is_digit (y @ m @ d @ h)"
    and "length h = 1 \<longrightarrow> (case post of [] \<Rightarrow> True | c # _ \<Rightarrow> \<not> is_digit c)"
    and "\<forall>k<length pre. match_here (drop k (filepath_Base path)) = []"
  shows "\<exists>err fs'. doDigestFile e path digestFile fs users =
     (Return (Some \<lparr>Count = c, Date = time_Date (int (digits_val y)) (int (digits_val m))
        (int (digits_val d)) (int (digits_val h)) 0 0\<rparr>, err), fs', users')"
proof -
  let ?s = "y @ ''-'' @ m @ ''-'' @ d @ ''-'' @ h @ post"
  have g: "match_here ?s = [y @ ''-'' @ m @ ''-'' @ d @ ''-'' @ h, y, m, d, h]"
    using assms(6-11) by (rule match_here_groups)
  have "FindStringSubmatch (pre @ ?s) = match_here ?s"
    using assms(12) g unfolding assms(5) by (intro FindStringSubmatch_leftmost) simp_all
  then have fs: "FindStringSubmatch (filepath_Base path) = [y @ ''-'' @ m @ ''-'' @ d @ ''-'' @ h, y, m, d, h]"
    using g assms(5) by simp
  show ?thesis
    by (rule doDigestFile_matched [OF assms(1-4) fs assms(6-10)])
qed


theorem doDigestFile_date_from_name_witness:
  "(\<exists>err fs'. doDigestFile example_env ''/data/2024-01-05-9.json.gz''
       ''/data/2024-01-05-9.json.gz.digest.json'' example_fs {} =
     (Return (Some \<lparr>Count = 2, Date = time_Date 2024 1 5 9 0 0\<rparr>, err), fs', {''alice''}))
   \<and> format_RFC3339 (time_Date 2024 1 5 9 0 0) = Some ''2024-01-05T09:00:00Z''"
proof -
  have 1: "os_Open example_fs ''/data/2024-01-05-9.json.gz'' = Inr ''gzip:example''"
    by code_simp
  have 2: "gzip_NewReader example_env ''gzip:example''
      = Inr [(take 10 example_stream, None), (drop 10 example_stream, None)]"
    by code_simp
  have 3: "lineCounter [(take 10 example_stream, None), (drop 10 example_stream, None)] = (2, None)"
    by code_simp
  have 4: "usernameExtractor (unicode_ToLower example_env)
      (fst (stream [(take 10 example_stream, None), (drop 10 example_stream, None)])) {}
      = (None, {''alice''})"
    by code_simp
  have 5: "filepath_Base ''/data/2024-01-05-9.json.gz''
      = [] @ ''2024'' @ ''-'' @ ''01'' @ ''-'' @ ''05'' @ ''-'' @ ''9'' @ ''.json.gz''"
    by code_simp
  have 6: "length ''2024'' = 4" "length ''01'' = 2" "length ''05'' = 2"
    "length ''9'' = 1 \<or> length ''9'' = 2"
    by simp_all
  have 7: "list_all is_digit (''2024'' @ ''01'' @ ''05'' @ ''9'')"
    by code_simp
  have 8: "length ''9'' = 1 \<longrightarrow> (case ''.json.gz'' of [] \<Rightarrow> True | c # _ \<Rightarrow> \<not> is_digit c)"
    by code_simp
  have 9: "\<forall>k<length ([] :: string). match_here (drop k (filepath_Base ''/data/2024-01-05-9.json.gz'')) = []"
    by simp
  have v: "int (digits_val ''2024'') = 2024" "int (digits_val ''01'') = 1"
    "int (digits_val ''05'') = 5" "int (digits_val ''9'') = 9"
    by code_simp+
  have f: "format_RFC3339 (time_Date 2024 1 5 9 0 0) = Some ''2024-01-05T09:00:00Z''"
    by code_simp
  show ?thesis
    using doDigestFile_date_from_name [OF 1 2 3 4 5 6 7 8 9] f unfolding v by simp
qed

text \<open>
  C4. When the base name of the input file has no match of the pattern, the fresh-digest
  computation returns no \<^verbatim>\<open>Digest\<close>: it panics, or (when the input file cannot be
  opened) returns an error without a digest; and the loop of \<^verbatim>\<open>main\<close> that reaches such
  a file without a cache artifact ends in a panic.
\<close>

theorem doDigestFile_no_match_aborts:
  assumes "FindStringSubmatch (filepath_Base path) = []"
  shows "(case doDigestFile e path digestFile fs users of
            (Panic err, fs', users') \<Rightarrow> True
          | (Return (d, err), fs', users') \<Rightarrow> d = None \<and> err \<noteq> None)
    \<and> (files fs (path @ ''.digest.json'') = None \<longrightarrow>
         aborted (fst (main_loop e (path # eventFiles) digests fs users)))"
proof -
  have 1: "(case doDigestFile e path digestFile fs users of
            (Panic err, fs', users') \<Rightarrow> True
          | (Return (d, err), fs', users') \<Rightarrow> d = None \<and> err \<noteq> None)" for digestFile fs
  proof (cases "os_Open fs path")
    case (Inl err)
    then show ?thesis by (simp add: doDigestFile_def)
  next
    case f: (Inr f)
    show ?thesis
    proof (cases "gzip_NewReader e f")
      case (Inl err)
      with f show ?thesis by (simp add: doDigestFile_def)
    next
      case r: (Inr reader)
      obtain c cerr where lc: "lineCounter reader = (c, cerr)"
        by (cases "lineCounter reader")
      obtain uerr users' where ue:
        "usernameExtractor (unicode_ToLower e) (fst (stream reader)) users = (uerr, users')"
        by (cases "usernameExtractor (unicode_ToLower e) (fst (stream reader)) users")
      show ?thesis
      proof (cases cerr)
        case (Some err)
        with f r lc show ?thesis by (simp add: doDigestFile_def)
      next
        case None
        show ?thesis
        proof (cases uerr)
          case (Some err)
          with f r lc ue None show ?thesis by (simp add: doDigestFile_def)
        next
          case n: None
          with f r lc ue None assms show ?thesis by (simp add: doDigestFile_def)
        qed
      qed
    qed
  qed
  have 2: "aborted (fst (main_loop e (path # eventFiles) digests fs users))"
    if n: "files fs (path @ ''.digest.json'') = None"
  proof (cases "path @ ''.digest.json'' \<in> denied fs")
    case True
    with n show ?thesis by (simp add: DigestFile_denied)
  next
    case False
    let ?fs = "fs\<lparr>files := (files fs)(path @ ''.digest.json'' \<mapsto> [])\<rparr>"
    have d: "DigestFile e path fs users = doDigestFile e path (path @ ''.digest.json'') ?fs users"
      using n False by (rule DigestFile_fresh)
    obtain r fs' users' where res:
      "doDigestFile e path (path @ ''.digest.json'') ?fs users = (r, fs', users')"
      by (cases "doDigestFile e path (path @ ''.digest.json'') ?fs users")
    show ?thesis
    proof (cases r)
      case (Panic err)
      with d res show ?thesis by simp
    next
      case (Return p)
      obtain dg err where p: "p = (dg, err)" by (cases p)
      from 1 [of "path @ ''.digest.json''" ?fs] res Return p
      have "dg = None \<and> err \<noteq> None" by simp
      then obtain er where "dg = None" "err = Some er" by auto
      with d res Return p show ?thesis by simp
    qed
  qed
  show ?thesis
  proof (intro conjI impI)
    show "(case doDigestFile e path digestFile fs users of
            (Panic err, fs', users') \<Rightarrow> True
          | (Return (d, err), fs', users') \<Rightarrow> d = None \<and> err \<noteq> None)"
      by (rule 1)
  next
    assume "files fs (path @ ''.digest.json'') = None"
    then show "aborted (fst (main_loop e (path # eventFiles) digests fs users))"
      by (rule 2)
  qed
qed

theorem doDigestFile_no_match_aborts_witness:
  "fst (doDigestFile example_env ''/data/2024-01-05.json.gz''
       ''/data/2024-01-05.json.gz.digest.json'' example_fs {}) = Panic IndexOutOfRange
   \<and> aborted (fst (main_loop example_env [''/data/2024-01-05.json.gz''] [] example_fs {}))"
proof -
  have m: "FindStringSubmatch (filepath_Base ''/data/2024-01-05.json.gz'') = []"
    by code_simp
  have n: "files example_fs (''/data/2024-01-05.json.gz'' @ ''.digest.json'') = None"
    by code_simp
  have r: "fst (doDigestFile example_env ''/data/2024-01-05.json.gz''
       ''/data/2024-01-05.json.gz.digest.json'' example_fs {}) = Panic IndexOutOfRange"
    by code_simp
  have a: "aborted (fst (main_loop example_env [''/data/2024-01-05.json.gz''] [] example_fs {}))"
    by (rule mp [OF conjunct2 [OF doDigestFile_no_match_aborts [OF m]] n])
  show ?thesis
    using r a by (rule conjI)
qed

text \<open>
  C6. The set that \<^verbatim>\<open>usernameExtractor\<close> leaves is the set it was given together with
  the \<^verbatim>\<open>strings.ToLower\<close> of the login of every record it decoded: each login is
  lower-cased before it is added. Hence two records whose (ASCII) logins differ only in
  case, such as \<^verbatim>\<open>Alice\<close> and \<^verbatim>\<open>alice\<close>, contribute a single member.
\<close>

theorem usernameExtractor_lowercases:
  "snd (usernameExtractor umap s users) = users \<union> set (map (strings_ToLower umap) (event_logins s))
   \<and> (event_logins s = [a, b] \<and> differ_only_in_case a b
        \<and> list_all (in_range 0 127) a \<and> list_all (in_range 0 127) b
      \<longrightarrow> snd (usernameExtractor umap s {}) = {map ascii_lower a})"
proof (intro conjI impI)
  show "snd (usernameExtractor umap s users)
      = users \<union> set (map (strings_ToLower umap) (event_logins s))"
    by (rule usernameExtractor_users)
next
  assume h: "event_logins s = [a, b] \<and> differ_only_in_case a b
        \<and> list_all (in_range 0 127) a \<and> list_all (in_range 0 127) b"
  then have "map ascii_lower a = map ascii_lower b"
    by (simp add: differ_only_in_case_lower)
  then show "snd (usernameExtractor umap s {}) = {map ascii_lower a}"
    using h by (simp add: usernameExtractor_users strings_ToLower_ascii)
qed

theorem usernameExtractor_lowercases_witness:
  "snd (usernameExtractor (\<lambda>s. s) example_stream {}) = {''alice''}
   \<and> event_logins example_stream = [''Alice'', ''alice'']"
proof -
  have l: "event_logins example_stream = [''Alice'', ''alice'']"
    by code_simp
  have d: "differ_only_in_case ''Alice'' ''alice''"
    by code_simp
  have a: "list_all (in_range 0 127) ''Alice''" "list_all (in_range 0 127) ''alice''"
    by code_simp+
  have m: "map ascii_lower ''Alice'' = ''alice''"
    by code_simp
  have "snd (usernameExtractor (\<lambda>s. s) example_stream {}) = {map ascii_lower ''Alice''}"
    using usernameExtractor_lowercases [of "\<lambda>s. s" example_stream "{}" "''Alice''" "''alice''"] l d a
    by blast
  then show ?thesis using l m by simp
qed

text \<open>
  C10, as the code has it. When the next element of the stream is \<^verbatim>\<open>null\<close> or an object
  in which every \<^verbatim>\<open>actor\<close> member is \<^verbatim>\<open>null\<close> or an object whose \<^verbatim>\<open>login\<close> members are
  \<^verbatim>\<open>null\<close> or the empty string (so in particular when the object has no \<^verbatim>\<open>actor\<close>
  member, or its actor has no \<^verbatim>\<open>login\<close> member), the extractor neither skips the record
  nor fails: it adds the empty username and goes on with the rest of the stream.
\<close>

theorem usernameExtractor_missing_login:
  assumes "decoder_readValue s = Inr (v, rest)" and "lacks_login v"
  shows "usernameExtractor umap s users = usernameExtractor umap rest (Add users [])
    \<and> [] \<in> snd (usernameExtractor umap s users)"
proof -
  obtain ev where ev: "unmarshal_EventRecord v EventRecord_zero = (ev, None)"
      "Username (Actor ev) = []"
    using unmarshal_EventRecord_lacking [OF assms(2)] by blast
  have d: "Decode_EventRecord s = Inr (ev, rest)"
    using assms(1) ev by (simp add: Decode_EventRecord_def)
  have m: "decoder_More s" using assms(1) by (rule decoder_readValue_More)
  have 1: "usernameExtractor umap s users = usernameExtractor umap rest (Add users [])"
    using d m ev by (simp add: strings_ToLower_def usernameExtractor.simps [of umap s])
  have "[] \<in> snd (usernameExtractor umap rest (Add users []))"
    by (simp add: usernameExtractor_users Add_def)
  with 1 show ?thesis by simp
qed

theorem usernameExtractor_missing_login_witness:
  "usernameExtractor (\<lambda>s. s) ''{\"actor\":{\"id\":7}} {\"type\":\"PushEvent\"}'' {} = (None, {[]})"
proof -
  have r: "decoder_readValue ''{\"actor\":{\"id\":7}} {\"type\":\"PushEvent\"}''
      = Inr (JObject [(''actor'', JObject [(''id'', JNumber ''7'')])], '' {\"type\":\"PushEvent\"}'')"
    by code_simp
  have l: "lacks_login (JObject [(''actor'', JObject [(''id'', JNumber ''7'')])])"
    by code_simp
  have t: "usernameExtractor (\<lambda>s. s) '' {\"type\":\"PushEvent\"}'' (Add {} []) = (None, {[]})"
    by code_simp
  show ?thesis
    using usernameExtractor_missing_login [OF r l, of "\<lambda>s. s" "{}"] t by simp
qed

text \<open>
  C10 as stated fails: the element \<^verbatim>\<open>{"actor":5}\<close> has no actor login field, and the
  extractor fails on it with an \<^verbatim>\<open>UnmarshalTypeError\<close> and adds nothing.
\<close>

theorem usernameExtractor_missing_login_counterexample:
  "usernameExtractor (\<lambda>s. s) ''{\"actor\":5}'' {} = (Some UnmarshalTypeError, {})"
  by code_simp

text \<open>
  C1. When a call of \<^verbatim>\<open>DigestFile\<close> on a path has returned a \<^verbatim>\<open>Digest\<close> with a nil error
  (having created and written the cache artifact, or having found one), a second call on
  the same path in the file system the first call left returns the same \<^verbatim>\<open>Digest\<close> with
  a nil error, leaves the file system as it is, and leaves the username set passed to it
  unchanged, whatever that set is.
\<close>

theorem DigestFile_idempotent:
  assumes "DigestFile e path fs users = (Return (Some d, None), fs1, users1)"
  shows "DigestFile e path fs1 users2 = (Return (Some d, None), fs1, users2)"
proof (cases "files fs (path @ ''.digest.json'')")
  case (Some content)
  have "(Return (readDigest fs (path @ ''.digest.json'')), fs, users)
      = (Return (Some d, None), fs1, users1)"
    unfolding DigestFile_hit [OF Some, of e users, symmetric] by (rule assms)
  then have r: "readDigest fs (path @ ''.digest.json'') = (Some d, None)" and fs1: "fs1 = fs"
    by auto
  show ?thesis
    unfolding fs1 using DigestFile_hit [OF Some, of e users2] r by simp
next
  case None
  show ?thesis
  proof (cases "path @ ''.digest.json'' \<in> denied fs")
    case True
    with assms DigestFile_denied [OF None, of e users] show ?thesis by simp
  next
    case False
    let ?fs = "fs\<lparr>files := (files fs)(path @ ''.digest.json'' \<mapsto> [])\<rparr>"
    have "doDigestFile e path (path @ ''.digest.json'') ?fs users = (Return (Some d, None), fs1, users1)"
      using assms DigestFile_fresh [OF None False, of e users] by simp
    then obtain bytes where b: "Encode_Digest d = Inr bytes"
        "fs1 = write_append ?fs (path @ ''.digest.json'') bytes"
        "nsec (Date d) = 0" "offset (Date d) = 0"
      using doDigestFile_success by blast
    have f1: "files fs1 (path @ ''.digest.json'') = Some bytes"
      and d1: "path @ ''.digest.json'' \<notin> denied fs1"
      using b(2) False by (simp_all add: write_append_def)
    have "readDigest fs1 (path @ ''.digest.json'') = (Some d, None)"
      using f1 d1 b(1,3,4) by (rule readDigest_written)
    then show ?thesis
      using DigestFile_hit [OF f1, of e users2] by simp
  qed
qed

theorem DigestFile_idempotent_witness:
  "fst (DigestFile example_env ''/data/2024-01-05-9.json.gz''
         (fst (snd (DigestFile example_env ''/data/2024-01-05-9.json.gz'' example_fs {}))) {''bob''})
     = Return (Some \<lparr>Count = 2, Date = time_Date 2024 1 5 9 0 0\<rparr>, None)
   \<and> snd (snd (DigestFile example_env ''/data/2024-01-05-9.json.gz''
         (fst (snd (DigestFile example_env ''/data/2024-01-05-9.json.gz'' example_fs {}))) {''bob''}))
     = {''bob''}
   \<and> snd (snd (DigestFile example_env ''/data/2024-01-05-9.json.gz'' example_fs {})) = {''alice''}"
proof -
  have r: "fst (DigestFile example_env ''/data/2024-01-05-9.json.gz'' example_fs {})
      = Return (Some \<lparr>Count = 2, Date = time_Date 2024 1 5 9 0 0\<rparr>, None)"
    by code_simp
  have u: "snd (snd (DigestFile example_env ''/data/2024-01-05-9.json.gz'' example_fs {})) = {''alice''}"
    by code_simp
  have a: "DigestFile example_env ''/data/2024-01-05-9.json.gz'' example_fs {}
      = (Return (Some \<lparr>Count = 2, Date = time_Date 2024 1 5 9 0 0\<rparr>, None),
         fst (snd (DigestFile example_env ''/data/2024-01-05-9.json.gz'' example_fs {})),
         snd (snd (DigestFile example_env ''/data/2024-01-05-9.json.gz'' example_fs {})))"
    using r by (simp add: prod_eq_iff)
  show ?thesis
    using DigestFile_idempotent [OF a, of "{''bob''}"] u by simp
qed

text \<open>
  C8, as the code has it. When the cache artifact of an input file exists and is empty, or
  holds the beginning of a JSON value only, \<^verbatim>\<open>DigestFile\<close> takes the cache-hit path: it
  does not recompute and changes neither the file system nor the username set. But it does
  not return a decoded digest: \<^verbatim>\<open>readDigest\<close> returns the zero \<^verbatim>\<open>Digest\<close> together with
  the decoding error (\<^verbatim>\<open>io.EOF\<close> for the empty artifact, \<^verbatim>\<open>io.ErrUnexpectedEOF\<close> for the
  partial one), and the loop of \<^verbatim>\<open>main\<close> panics on that error: the run aborts.
\<close>

theorem DigestFile_incomplete_artifact:
  assumes "files fs (path @ ''.digest.json'') = Some content"
    and "path @ ''.digest.json'' \<notin> denied fs"
    and "skip_space content = [] \<or> json_scan content = Truncated"
  shows "DigestFile e path fs users =
      (Return (Some Digest_zero, Some (if skip_space content = [] then EOF else ErrUnexpectedEOF)),
       fs, users)
    \<and> aborted (fst (main_loop e (path # eventFiles) digests fs users))"
proof -
  have "Decode_Digest content Digest_zero
      = (Digest_zero, Some (if skip_space content = [] then EOF else ErrUnexpectedEOF))"
    using assms(3) by (auto simp: Decode_Digest_def decoder_readValue_def)
  then have "readDigest fs (path @ ''.digest.json'')
      = (Some Digest_zero, Some (if skip_space content = [] then EOF else ErrUnexpectedEOF))"
    using assms(1,2) by (simp add: readDigest_def os_Open_def)
  then have d: "DigestFile e path fs users =
      (Return (Some Digest_zero, Some (if skip_space content = [] then EOF else ErrUnexpectedEOF)),
       fs, users)"
    using DigestFile_hit [OF assms(1), of e users] by simp
  then show ?thesis by simp
qed

theorem DigestFile_incomplete_artifact_witness:
  "DigestFile example_env ''/data/2024-01-05-9.json.gz'' example_fs_partial_artifact {''bob''}
     = (Return (Some Digest_zero, Some ErrUnexpectedEOF), example_fs_partial_artifact, {''bob''})
   \<and> aborted (fst (main_loop example_env [''/data/2024-01-05-9.json.gz''] []
        example_fs_partial_artifact {''bob''}))"
proof -
  have 1: "files example_fs_partial_artifact (''/data/2024-01-05-9.json.gz'' @ ''.digest.json'')
      = Some ''{\"count\":2,\"da''"
    by code_simp
  have 2: "''/data/2024-01-05-9.json.gz'' @ ''.digest.json'' \<notin> denied example_fs_partial_artifact"
    by code_simp
  have 3: "skip_space ''{\"count\":2,\"da'' = [] \<or> json_scan ''{\"count\":2,\"da'' = Truncated"
    by code_simp
  have 4: "skip_space ''{\"count\":2,\"da'' \<noteq> []"
    by code_simp
  show ?thesis
    using DigestFile_incomplete_artifact [OF 1 2 3, of example_env "{''bob''}" "[]" "[]"] 4
    by simp
qed

text \<open>
  C8 as stated fails: on an existing, empty cache artifact the call returns no decoded
  digest but the zero value with \<^verbatim>\<open>io.EOF\<close>, and the run aborts.
\<close>

theorem DigestFile_empty_artifact_counterexample:
  "fst (DigestFile example_env ''/data/2024-01-05-9.json.gz'' example_fs_empty_artifact {})
     = Return (Some Digest_zero, Some EOF)
   \<and> aborted (fst (main_loop example_env [''/data/2024-01-05-9.json.gz''] []
        example_fs_empty_artifact {}))"
  by code_simp




end
